theory Spec2Isabelle
  imports Main "HOL-Library.Word"
begin

unbundle bit_operations_syntax

section \<open>Round-robin scheduler (kernel/src/sched/alg/rr.cpp)\<close>

text \<open>
  Modelled from the spec: the run queue type, whose declaration is in a header outside
  the sources at hand.  It is a FIFO: \<open>enqueue\<close> appends at the tail, \<open>pop\<close> removes
  and returns the head, \<open>remove\<close> deletes an element, \<open>empty\<close> tests for the empty
  queue.  A task control block is referred to by pointer; the model uses a natural
  number as the identity of a TCB, and \<open>None\<close> for \<open>nullptr\<close>.
\<close>

type_synonym tcb = nat

record current_slot =
  task :: "tcb option"
  to_remove :: bool

record round_robin =
  runqueue :: "tcb list"
  current_task :: current_slot

definition add_to_runqueue :: "round_robin \<Rightarrow> tcb \<Rightarrow> round_robin" where
  "add_to_runqueue s t = s\<lparr>runqueue := runqueue s @ [t]\<rparr>"

definition remove_from_runqueue :: "round_robin \<Rightarrow> tcb \<Rightarrow> round_robin" where
  "remove_from_runqueue s t =
     (if Some t = task (current_task s)
      then s\<lparr>current_task := (current_task s)\<lparr>to_remove := True\<rparr>\<rparr>
      else s\<lparr>runqueue := remove1 t (runqueue s)\<rparr>)"

text \<open>
  \<open>select_next_task\<close> ignores its argument \<open>current\<close> and works on the slot kept in
  the scheduler object.  The result is the returned pointer and the new scheduler state.
\<close>

definition select_next_task :: "round_robin \<Rightarrow> tcb option \<Rightarrow> tcb option \<times> round_robin" where
  "select_next_task s current =
     (if runqueue s = [] then
        (let s1 = (if to_remove (current_task s)
                   then s\<lparr>current_task := \<lparr>task = None, to_remove = False\<rparr>\<rparr>
                   else s)
         in (task (current_task s1), s1))
      else
        (let s1 = (if \<not> to_remove (current_task s) \<and> task (current_task s) \<noteq> None
                   then s\<lparr>runqueue := runqueue s @ [the (task (current_task s))]\<rparr>
                   else s);
             s2 = s1\<lparr>current_task := (current_task s1)\<lparr>to_remove := False\<rparr>\<rparr>
         in (case runqueue s2 of
               [] \<Rightarrow> (None, s2)
             | t # q \<Rightarrow> (Some t, s2\<lparr>runqueue := q,
                                     current_task := (current_task s2)\<lparr>task := Some t\<rparr>\<rparr>))))"

text \<open>The scheduler after \<open>n\<close> further scheduling points, each passing the task that ran.\<close>

fun select_times :: "nat \<Rightarrow> round_robin \<Rightarrow> round_robin" where
  "select_times 0 s = s"
| "select_times (Suc n) s =
     select_times n (snd (select_next_task s (task (current_task s))))"


section \<open>Buddy page allocator (kernel/src/mem/page-allocator-buddy.cpp)\<close>

subsection \<open>Data model\<close>

text \<open>
  Modelled from the spec: the page descriptor table (\<open>page::get_from_pfn\<close>, \<open>pfn()\<close>),
  which the allocator treats as an array lookup from PFN to descriptor.  A pointer to a
  page descriptor is therefore represented by the 64-bit PFN of the page, pointer
  comparison by comparison of PFNs, and \<open>nullptr\<close> by \<open>None\<close>.

  The allocator object holds the array \<open>free_list_\<close> of list heads.  The link field
  \<open>next_free\<close> lives in the first machine word of each page frame, so it is a part of
  physical memory shared by all orders: \<open>next_free s p\<close> is that word of frame \<open>p\<close>
  read as a page pointer, whatever the frame is used for.  The remaining bytes of a frame
  are \<open>frame_body s p off\<close> for \<open>8 \<le> off < PAGE_SIZE\<close>.
\<close>

type_synonym u64 = "64 word"
type_synonym page_ptr = "u64 option"

datatype error = Assertion_failed | Null_dereference | Nontermination

record allocator =
  free_list :: "nat \<Rightarrow> page_ptr"
  next_free :: "u64 \<Rightarrow> page_ptr"
  frame_body :: "u64 \<Rightarrow> nat \<Rightarrow> 8 word"

definition LastOrder :: int where
  "LastOrder = 16"

definition UNIT64_MAX :: u64 where
  "UNIT64_MAX = 18446744073709551615"

text \<open>The constructor clears the seventeen list heads and leaves memory as it finds it.\<close>

definition page_allocator_buddy :: "(u64 \<Rightarrow> page_ptr) \<Rightarrow> (u64 \<Rightarrow> nat \<Rightarrow> 8 word) \<Rightarrow> allocator" where
  "page_allocator_buddy links bytes =
     \<lparr>free_list = (\<lambda>i. None), next_free = links, frame_body = bytes\<rparr>"

text \<open>An allocator constructed over memory that holds zeros everywhere.\<close>

definition zero_memory_allocator :: allocator where
  "zero_memory_allocator = page_allocator_buddy (\<lambda>p. None) (\<lambda>p off. 0)"

definition pages_per_block :: "int \<Rightarrow> u64" where
  "pages_per_block order = push_bit (nat order) 1"

definition block_aligned :: "int \<Rightarrow> u64 \<Rightarrow> bool" where
  "block_aligned order pfn \<longleftrightarrow> pfn AND (pages_per_block order - 1) = 0"

definition get_buddy :: "int \<Rightarrow> u64 \<Rightarrow> u64" where
  "get_buddy order buddy = buddy XOR pages_per_block order"

text \<open>
  A \<open>page**\<close> is the address of a pointer cell: either an element of \<open>free_list_\<close> or
  the \<open>next_free\<close> word of a frame.
\<close>

datatype slot = Head_slot nat | Next_slot u64

fun slot_get :: "allocator \<Rightarrow> slot \<Rightarrow> page_ptr" where
  "slot_get s (Head_slot i) = free_list s i"
| "slot_get s (Next_slot p) = next_free s p"

fun slot_set :: "allocator \<Rightarrow> slot \<Rightarrow> page_ptr \<Rightarrow> allocator" where
  "slot_set s (Head_slot i) v = s\<lparr>free_list := (free_list s)(i := v)\<rparr>"
| "slot_set s (Next_slot p) v = s\<lparr>next_free := (next_free s)(p := v)\<rparr>"

definition set_next_free :: "allocator \<Rightarrow> u64 \<Rightarrow> page_ptr \<Rightarrow> allocator" where
  "set_next_free s p v = s\<lparr>next_free := (next_free s)(p := v)\<rparr>"

subsection \<open>List helpers\<close>

text \<open>
  The two traversals follow \<open>next_free\<close> through memory and need not end on a cyclic
  chain; \<open>None\<close> is the run that never leaves the loop.
\<close>

partial_function (option) get_slot_loop :: "allocator \<Rightarrow> u64 \<Rightarrow> slot \<Rightarrow> slot option" where
  "get_slot_loop s target slot =
     (case slot_get s slot of
        None \<Rightarrow> Some slot
      | Some q \<Rightarrow> if q < target then get_slot_loop s target (Next_slot q) else Some slot)"

declare get_slot_loop.simps [code]

definition get_slot :: "allocator \<Rightarrow> int \<Rightarrow> u64 \<Rightarrow> error + slot" where
  "get_slot s order block_start =
     (if \<not> (0 \<le> order \<and> order \<le> LastOrder) then Inl Assertion_failed
      else if \<not> block_aligned order block_start then Inl Assertion_failed
      else case get_slot_loop s block_start (Head_slot (nat order)) of
             None \<Rightarrow> Inl Nontermination
           | Some slot \<Rightarrow>
               if slot_get s slot = Some block_start then Inl Assertion_failed
               else Inr slot)"

partial_function (option) get_candidate_slot_loop :: "allocator \<Rightarrow> u64 \<Rightarrow> slot \<Rightarrow> slot option" where
  "get_candidate_slot_loop s target candidate_slot =
     (case slot_get s candidate_slot of
        None \<Rightarrow> Some candidate_slot
      | Some q \<Rightarrow> if q \<noteq> target then get_candidate_slot_loop s target (Next_slot q)
                  else Some candidate_slot)"

declare get_candidate_slot_loop.simps [code]

definition get_candidate_slot :: "allocator \<Rightarrow> int \<Rightarrow> u64 \<Rightarrow> error + slot" where
  "get_candidate_slot s order block_start =
     (if \<not> (0 \<le> order \<and> order \<le> LastOrder) then Inl Assertion_failed
      else if \<not> block_aligned order block_start then Inl Assertion_failed
      else case get_candidate_slot_loop s block_start (Head_slot (nat order)) of
             None \<Rightarrow> Inl Nontermination
           | Some candidate_slot \<Rightarrow>
               if slot_get s candidate_slot \<noteq> Some block_start then Inl Assertion_failed
               else Inr candidate_slot)"

definition insert_free_block :: "allocator \<Rightarrow> int \<Rightarrow> u64 \<Rightarrow> error + allocator" where
  "insert_free_block s order block_start =
     (case get_slot s order block_start of
        Inl e \<Rightarrow> Inl e
      | Inr slot \<Rightarrow>
          (let s1 = set_next_free s block_start (slot_get s slot)
           in Inr (slot_set s1 slot (Some block_start))))"

definition remove_free_block :: "allocator \<Rightarrow> int \<Rightarrow> u64 \<Rightarrow> error + allocator" where
  "remove_free_block s order block_start =
     (case get_candidate_slot s order block_start of
        Inl e \<Rightarrow> Inl e
      | Inr candidate_slot \<Rightarrow>
          (let s1 = slot_set s candidate_slot (next_free s block_start)
           in Inr (set_next_free s1 block_start None)))"

definition insert_buddies :: "allocator \<Rightarrow> int \<Rightarrow> u64 \<Rightarrow> u64 \<Rightarrow> error + allocator" where
  "insert_buddies s order first_block second_block =
     (case get_slot s order first_block of
        Inl e \<Rightarrow> Inl e
      | Inr slot \<Rightarrow>
          if \<not> block_aligned order second_block then Inl Assertion_failed
          else
            (let s1 = set_next_free s first_block (Some second_block);
                 s2 = set_next_free s1 second_block (slot_get s1 slot)
             in Inr (slot_set s2 slot (Some first_block))))"

definition remove_buddies :: "allocator \<Rightarrow> int \<Rightarrow> u64 \<Rightarrow> error + allocator" where
  "remove_buddies s order block_start =
     (case get_candidate_slot s order block_start of
        Inl e \<Rightarrow> Inl e
      | Inr candidate_slot \<Rightarrow>
          (case next_free s block_start of
             None \<Rightarrow> Inl Null_dereference
           | Some second_block \<Rightarrow>
               if \<not> block_aligned order second_block then Inl Assertion_failed
               else
                 (let s1 = slot_set s candidate_slot (next_free s second_block);
                      s2 = set_next_free s1 second_block None
                  in Inr (set_next_free s2 block_start None))))"

subsection \<open>Splitting and merging\<close>

definition split_block :: "allocator \<Rightarrow> int \<Rightarrow> u64 \<Rightarrow> error + allocator" where
  "split_block s order block_start =
     (if \<not> (0 < order \<and> order \<le> LastOrder) then Inl Assertion_failed
      else
        (let next_block = block_start + pages_per_block (order - 1)
         in case remove_free_block s order block_start of
              Inl e \<Rightarrow> Inl e
            | Inr s1 \<Rightarrow> insert_buddies s1 (order - 1) block_start next_block))"

definition merge_buddies :: "allocator \<Rightarrow> int \<Rightarrow> u64 \<Rightarrow> error + (page_ptr \<times> allocator)" where
  "merge_buddies s order buddy =
     (if \<not> (0 \<le> order \<and> order < LastOrder) then Inl Assertion_failed
      else
        (let buddy2 = get_buddy order buddy;
             first = (if buddy < buddy2 then buddy else buddy2);
             second = (if buddy < buddy2 then buddy2 else buddy)
         in if next_free s first \<noteq> Some second then Inr (None, s)
            else case remove_buddies s order first of
                   Inl e \<Rightarrow> Inl e
                 | Inr s1 \<Rightarrow>
                     (case insert_free_block s1 (order + 1) first of
                        Inl e \<Rightarrow> Inl e
                      | Inr s2 \<Rightarrow> Inr (Some first, s2))))"

function iterative_merge :: "allocator \<Rightarrow> int \<Rightarrow> page_ptr \<Rightarrow> error + allocator" where
  "iterative_merge s order buddy_ptr =
     (case buddy_ptr of
        None \<Rightarrow> Inr s
      | Some b \<Rightarrow>
          if order < LastOrder then
            (case merge_buddies s order b of
               Inl e \<Rightarrow> Inl e
             | Inr (r, s1) \<Rightarrow> iterative_merge s1 (order + 1) r)
          else Inr s)"
  by pat_completeness auto
termination
  by (relation "measure (\<lambda>(s, order, b). nat (LastOrder - order))") auto

declare iterative_merge.simps [simp del]

text \<open>The upward scan and the downward splitting loop of \<open>iterative_split\<close>.\<close>

function split_scan :: "allocator \<Rightarrow> int \<Rightarrow> int" where
  "split_scan s order =
     (if order \<le> LastOrder \<and> free_list s (nat order) = None
      then split_scan s (order + 1) else order)"
  by pat_completeness auto
termination
  by (relation "measure (\<lambda>(s, order). nat (LastOrder + 1 - order))") auto

declare split_scan.simps [simp del]

function split_down :: "allocator \<Rightarrow> int \<Rightarrow> int \<Rightarrow> error + (page_ptr \<times> allocator)" where
  "split_down s order target_order =
     (if order > target_order then
        (case free_list s (nat order) of
           None \<Rightarrow> Inl Null_dereference
         | Some b \<Rightarrow>
             (case split_block s order b of
                Inl e \<Rightarrow> Inl e
              | Inr s1 \<Rightarrow> split_down s1 (order - 1) target_order))
      else Inr (free_list s (nat target_order), s))"
  by pat_completeness auto
termination
  by (relation "measure (\<lambda>(s, order, target_order). nat (order - target_order))") auto

declare split_down.simps [simp del]

definition iterative_split :: "allocator \<Rightarrow> int \<Rightarrow> error + (page_ptr \<times> allocator)" where
  "iterative_split s target_order =
     (if \<not> (0 \<le> target_order \<and> target_order \<le> LastOrder) then Inl Assertion_failed
      else if free_list s (nat target_order) \<noteq> None
      then Inr (free_list s (nat target_order), s)
      else
        (let order = split_scan s (target_order + 1)
         in if order > LastOrder then Inr (None, s)
            else split_down s order target_order))"

subsection \<open>Public functions\<close>

text \<open>
  Modelled from the spec: \<open>page_allocation_flags\<close> and \<open>memops::pzero\<close>, declared in
  headers outside the sources at hand.  The flags are a bit set in which \<open>zero\<close> is one
  bit; \<open>pzero ptr n\<close> clears \<open>n\<close> whole pages starting with the frame \<open>ptr\<close> points into, the
  link word of each frame included (the null pointer is the all-zero word).
\<close>

type_synonym page_allocation_flags = "32 word"

definition flag_none :: page_allocation_flags where
  "flag_none = 0"

definition flag_zero :: page_allocation_flags where
  "flag_zero = 1"

definition PAGE_SIZE :: nat where
  "PAGE_SIZE = 4096"

definition pzero :: "allocator \<Rightarrow> u64 \<Rightarrow> u64 \<Rightarrow> allocator" where
  "pzero s p n =
     s\<lparr>next_free := (\<lambda>q. if q - p < n then None else next_free s q),
       frame_body := (\<lambda>q. if q - p < n then (\<lambda>off. 0) else frame_body s q)\<rparr>"

definition allocate_pages :: "allocator \<Rightarrow> int \<Rightarrow> page_allocation_flags \<Rightarrow> error + (page_ptr \<times> allocator)" where
  "allocate_pages s order flags =
     (if order < 0 \<or> order > LastOrder then Inr (None, s)
      else case iterative_split s order of
             Inl e \<Rightarrow> Inl e
           | Inr (None, s1) \<Rightarrow> Inr (None, s1)
           | Inr (Some chosen, s1) \<Rightarrow>
               (case remove_free_block s1 order chosen of
                  Inl e \<Rightarrow> Inl e
                | Inr s2 \<Rightarrow>
                    Inr (Some chosen,
                         if flags AND flag_zero = flag_zero
                         then pzero s2 chosen (push_bit (nat order) 1) else s2)))"

definition free_pages :: "allocator \<Rightarrow> u64 \<Rightarrow> int \<Rightarrow> error + allocator" where
  "free_pages s block_start order =
     (if \<not> (0 \<le> order \<and> order \<le> LastOrder) then Inl Assertion_failed
      else case insert_free_block s order block_start of
             Inl e \<Rightarrow> Inl e
           | Inr s1 \<Rightarrow> iterative_merge s1 order (Some block_start))"

text \<open>
  \<open>insert_free_pages\<close>: the overflow assertion, then the three loops.  Each loop is a
  function of the local variables it reads and writes.
\<close>

definition max_block_size :: u64 where
  "max_block_size = push_bit (nat LastOrder) 1"

definition overflow_check :: "u64 \<Rightarrow> u64 \<Rightarrow> bool" where
  "overflow_check pfn page_count \<longleftrightarrow> pfn < UNIT64_MAX - page_count"

function low_order_sweep ::
  "allocator \<Rightarrow> int \<Rightarrow> u64 \<Rightarrow> u64 \<Rightarrow> u64 \<Rightarrow> error + (allocator \<times> int \<times> u64 \<times> u64 \<times> u64)" where
  "low_order_sweep s order lsb pfn page_count =
     (if page_count \<ge> lsb \<and> order < LastOrder then
        (if lsb AND pfn \<noteq> 0 then
           (case free_pages s pfn order of
              Inl e \<Rightarrow> Inl e
            | Inr s1 \<Rightarrow>
                low_order_sweep s1 (order + 1) (push_bit 1 lsb) (pfn + lsb) (page_count - lsb))
         else low_order_sweep s (order + 1) (push_bit 1 lsb) pfn page_count)
      else Inr (s, order, lsb, pfn, page_count))"
  by pat_completeness auto
termination
  by (relation "measure (\<lambda>(s, order, lsb, pfn, page_count). nat (LastOrder - order))") auto

declare low_order_sweep.simps [simp del]

function cap_loop :: "allocator \<Rightarrow> u64 \<Rightarrow> u64 \<Rightarrow> error + (allocator \<times> u64 \<times> u64)" where
  "cap_loop s pfn page_count =
     (if page_count > max_block_size then
        (case insert_free_block s LastOrder pfn of
           Inl e \<Rightarrow> Inl e
         | Inr s1 \<Rightarrow> cap_loop s1 (pfn + max_block_size) (page_count - max_block_size))
      else Inr (s, pfn, page_count))"
  by pat_completeness auto
termination
proof (relation "measure (\<lambda>(s, pfn, page_count). unat page_count)")
  show "wf (measure (\<lambda>(s, pfn, page_count). unat page_count))"
    by simp
next
  fix s :: allocator and pfn page_count :: u64 and x
  assume a: "max_block_size < page_count"
  then have le: "max_block_size \<le> page_count"
    by (rule order_less_imp_le)
  have "unat max_block_size = 65536"
    by (simp add: max_block_size_def LastOrder_def)
  then have "unat (page_count - max_block_size) < unat page_count"
    using unat_sub [OF le] a by (simp add: word_less_nat_alt)
  then show "((x, pfn + max_block_size, page_count - max_block_size), (s, pfn, page_count))
       \<in> measure (\<lambda>(s, pfn, page_count). unat page_count)"
    by simp
qed

declare cap_loop.simps [simp del]

function high_order_sweep :: "allocator \<Rightarrow> int \<Rightarrow> u64 \<Rightarrow> u64 \<Rightarrow> u64 \<Rightarrow> error + allocator" where
  "high_order_sweep s order lsb pfn page_count =
     (if lsb > 0 then
        (let lsb1 = drop_bit 1 lsb; order1 = order - 1
         in if lsb1 AND page_count \<noteq> 0 then
              (case free_pages s pfn order1 of
                 Inl e \<Rightarrow> Inl e
               | Inr s1 \<Rightarrow> high_order_sweep s1 order1 lsb1 (pfn + lsb1) page_count)
            else high_order_sweep s order1 lsb1 pfn page_count)
      else Inr s)"
  by pat_completeness auto
termination
proof (relation "measure (\<lambda>(s, order, lsb, pfn, page_count). unat lsb)")
  show "wf (measure (\<lambda>(s, order, lsb, pfn, page_count). unat lsb))"
    by simp
next
  fix s :: allocator and order :: int and lsb pfn page_count :: u64 and lsb1 order1 x
  assume "0 < lsb" and l: "lsb1 = drop_bit 1 lsb"
  then have "unat lsb \<noteq> 0"
    by (simp add: word_greater_zero_iff unat_eq_0)
  then have "unat lsb1 < unat lsb"
    by (simp add: l drop_bit_eq_div unat_div)
  then show "((x, order1, lsb1, pfn + lsb1, page_count), (s, order, lsb, pfn, page_count))
       \<in> measure (\<lambda>(s, order, lsb, pfn, page_count). unat lsb)"
    by simp
next
  fix s :: allocator and order :: int and lsb pfn page_count :: u64 and lsb1 order1
  assume "0 < lsb" and l: "lsb1 = drop_bit 1 lsb"
  then have "unat lsb \<noteq> 0"
    by (simp add: word_greater_zero_iff unat_eq_0)
  then have "unat lsb1 < unat lsb"
    by (simp add: l drop_bit_eq_div unat_div)
  then show "((s, order1, lsb1, pfn, page_count), (s, order, lsb, pfn, page_count))
       \<in> measure (\<lambda>(s, order, lsb, pfn, page_count). unat lsb)"
    by simp
qed

declare high_order_sweep.simps [simp del]

definition insert_free_pages :: "allocator \<Rightarrow> u64 \<Rightarrow> u64 \<Rightarrow> error + allocator" where
  "insert_free_pages s range_start page_count =
     (if \<not> overflow_check range_start page_count then Inl Assertion_failed
      else case low_order_sweep s 0 1 range_start page_count of
             Inl e \<Rightarrow> Inl e
           | Inr (s1, order, lsb, pfn, page_count1) \<Rightarrow>
               (case cap_loop s1 pfn page_count1 of
                  Inl e \<Rightarrow> Inl e
                | Inr (s2, pfn2, page_count2) \<Rightarrow>
                    high_order_sweep s2 order lsb pfn2 page_count2))"

section \<open>Directory listing utility (user/ls/src/main.cpp)\<close>

text \<open>
  Modelled from the spec: the console and the \<open>readdir\<close> system call, which are outside
  the sources at hand.  The console is the list of strings written so far, one element
  for each call of \<open>write\<close> or \<open>writef\<close>, with \<open>%s\<close> and \<open>%llu\<close> expanded as
  \<open>printf\<close> does.  An open directory is the list of batches that the successive calls
  of \<open>readdir\<close> copy into the buffer (the empty list when nothing is left, so that the
  call returns 0); a batch holds at most \<open>dirents_in_buffer\<close> entries since it has to
  fit the buffer.  A name is the string up to the terminating NUL of the \<open>char\<close> array.
\<close>

datatype file_type = File | Directory

record dirent =
  name :: string
  name_length :: int
  type :: file_type
  file_size :: u64

definition dirents_in_buffer :: nat where
  "dirents_in_buffer = 10"

fun decimal :: "nat \<Rightarrow> string" where
  "decimal n =
     (if n < 10 then [char_of (48 + n)]
      else decimal (n div 10) @ [char_of (48 + n mod 10)])"

declare decimal.simps [simp del]

definition longest_name :: "dirent list \<Rightarrow> nat" where
  "longest_name files =
     foldl (\<lambda>max file. if length (name file) > max then length (name file) else max) 0 files"

text \<open>The test \<open>entry.name[0] != '.'\<close>; the first character of the empty name is NUL.\<close>

definition hidden :: "dirent \<Rightarrow> bool" where
  "hidden entry = (case name entry of [] \<Rightarrow> False | c # cs \<Rightarrow> c = CHR ''.'')"

text \<open>The \<open>for\<close> loop over one filled buffer.\<close>

fun scan_buffer :: "dirent list \<Rightarrow> dirent list \<times> dirent list \<Rightarrow> dirent list \<times> dirent list" where
  "scan_buffer [] (directories, files) = (directories, files)"
| "scan_buffer (entry # rest) (directories, files) =
     scan_buffer rest
       (if \<not> hidden entry then
          (if type entry = File then (directories, files @ [entry])
           else (directories @ [entry], files))
        else (directories, files))"

text \<open>
  The \<open>while\<close> loop: it reads once more as long as the last call filled the buffer
  completely.
\<close>

fun read_entries :: "dirent list list \<Rightarrow> dirent list \<times> dirent list \<Rightarrow> dirent list \<times> dirent list" where
  "read_entries [] acc = acc"
| "read_entries (buffer # later) acc =
     (let acc1 = scan_buffer buffer acc
      in if length buffer = dirents_in_buffer then read_entries later acc1 else acc1)"

definition print_formatted :: "dirent list \<Rightarrow> dirent list \<Rightarrow> string list" where
  "print_formatted directories files =
     map (\<lambda>dir. ''(D) '' @ name dir @ ''\<newline>'') directories @
     (let longest = longest_name files
      in concat (map (\<lambda>file.
           [''(F) '' @ name file @ ''  ''] @
           replicate (longest - length (name file)) '' '' @
           [decimal (unat (file_size file)) @ ''\<newline>'']) files))"

definition print_plain :: "dirent list \<Rightarrow> dirent list \<Rightarrow> string list" where
  "print_plain directories files =
     map (\<lambda>dir. name dir @ ''\<newline>'') directories @
     map (\<lambda>file. name file @ ''\<newline>'') files"

text \<open>Lines 61 to 133 of \<open>main\<close>: collect the entries, then print them.\<close>

definition list_directory :: "bool \<Rightarrow> dirent list list \<Rightarrow> string list" where
  "list_directory formatting_mode dir =
     (let (directories, files) = read_entries dir ([], [])
      in if formatting_mode then print_formatted directories files
         else print_plain directories files)"

text \<open>The option loop at the start of \<open>main\<close>; \<open>None\<close> is the usage error.\<close>

fun parse_flags :: "string \<Rightarrow> bool \<Rightarrow> (bool \<times> string) option" where
  "parse_flags [] formatting_mode = Some (formatting_mode, [])"
| "parse_flags (c # cs) formatting_mode =
     (if c = CHR ''-'' then
        (case cs of
           [] \<Rightarrow> None
         | d # ds \<Rightarrow> if d = CHR ''f'' then parse_flags ds True else None)
      else Some (formatting_mode, c # cs))"

text \<open>
  \<open>main\<close> gets the command line (\<open>None\<close> for a null pointer) and the file system as the
  function \<open>opendir\<close>; it yields the console output and the exit code.  After a failed
  \<open>opendir\<close> the code goes on to call \<open>readdir\<close> through the null pointer.
\<close>

definition main :: "string option \<Rightarrow> (string \<Rightarrow> dirent list list option) \<Rightarrow> string list \<times> (error + int)" where
  "main cmdline opendir =
     (case cmdline of
        None \<Rightarrow> ([''error: usage: ls [-f] <filename>\<newline>''], Inr 1)
      | Some cmd \<Rightarrow>
          if length cmd = 0 then ([''error: usage: ls [-f] <filename>\<newline>''], Inr 1)
          else
            (case parse_flags cmd False of
               None \<Rightarrow> ([''error: usage: cat [-f] <filename>\<newline>''], Inr 1)
             | Some (formatting_mode, rest) \<Rightarrow>
                 (let path = dropWhile (\<lambda>c. c = CHR '' '') rest
                  in case opendir path of
                       None \<Rightarrow>
                         ([''error: unable to open file '' @ path @ '' for listing\<newline>''],
                          Inl Null_dereference)
                     | Some dir \<Rightarrow> (list_directory formatting_mode dir, Inr 0))))"

text \<open>The entries that the reading loop gets to see.\<close>

fun entries_read :: "dirent list list \<Rightarrow> dirent list" where
  "entries_read [] = []"
| "entries_read (buffer # later) =
     buffer @ (if length buffer = dirents_in_buffer then entries_read later else [])"

section \<open>Abstraction of the allocator state\<close>

text \<open>
  The cells reached from the pointer \<open>h\<close> through the link field \<open>nf\<close> are exactly
  the list \<open>xs\<close>, in this order, and the last link is null.
\<close>

fun is_list :: "(u64 \<Rightarrow> page_ptr) \<Rightarrow> page_ptr \<Rightarrow> u64 list \<Rightarrow> bool" where
  "is_list nf h [] \<longleftrightarrow> h = None"
| "is_list nf h (x # xs) \<longleftrightarrow> h = Some x \<and> is_list nf (nf x) xs"

text \<open>The pointer to a list: its first cell, or null.\<close>

definition ptr_of :: "u64 list \<Rightarrow> page_ptr" where
  "ptr_of xs = (case xs of [] \<Rightarrow> None | x # ys \<Rightarrow> Some x)"

text \<open>A list segment from \<open>h\<close> that ends with the link \<open>e\<close>.\<close>

fun is_seg :: "(u64 \<Rightarrow> page_ptr) \<Rightarrow> page_ptr \<Rightarrow> u64 list \<Rightarrow> page_ptr \<Rightarrow> bool" where
  "is_seg nf h [] e \<longleftrightarrow> h = e"
| "is_seg nf h (x # xs) e \<longleftrightarrow> h = Some x \<and> is_seg nf (nf x) xs e"

text \<open>The free list of order \<open>n\<close>, as it is laid out in memory.\<close>

definition free_list_of :: "allocator \<Rightarrow> nat \<Rightarrow> u64 list \<Rightarrow> bool" where
  "free_list_of s n xs \<longleftrightarrow> is_list (next_free s) (free_list s n) xs"

text \<open>The page numbers of the block of order \<open>n\<close> that starts at PFN \<open>p\<close>.\<close>

definition pages :: "nat \<Rightarrow> u64 \<Rightarrow> nat set" where
  "pages n p = {unat p ..< unat p + 2 ^ n}"

text \<open>An allocator over zeroed memory whose only free block is the page at PFN 0.\<close>

definition one_page_allocator :: allocator where
  "one_page_allocator = zero_memory_allocator\<lparr>free_list := (\<lambda>i. None)(0 := Some 0)\<rparr>"

text \<open>
  An allocator over memory in use before: every byte is \<open>0xAA\<close> and every link word but
  that of PFN 0 holds a stale pointer.  Its only free block is the pair of pages at PFN 0.
\<close>

definition dirty_pair_allocator :: allocator where
  "dirty_pair_allocator =
     (page_allocator_buddy ((\<lambda>p. Some 7)(0 := None)) (\<lambda>p off. 0xAA))
       \<lparr>free_list := (\<lambda>i. None)(1 := Some 0)\<rparr>"

text \<open>
  The allocator state seen as one set of block bases for each order: the list of order
  \<open>n\<close> in memory is the set \<open>S n\<close> in ascending order.
\<close>

definition free_sets :: "allocator \<Rightarrow> (nat \<Rightarrow> u64 set) \<Rightarrow> bool" where
  "free_sets s S \<longleftrightarrow> (\<forall>n\<le>16. free_list_of s n (sorted_list_of_set (S n)))"

definition sets_disjoint :: "(nat \<Rightarrow> u64 set) \<Rightarrow> bool" where
  "sets_disjoint S \<longleftrightarrow> (\<forall>n\<le>16. \<forall>m\<le>16. n \<noteq> m \<longrightarrow> S n \<inter> S m = {})"

text \<open>Every frame that is not the base of a listed block has a null link word.\<close>

definition links_null :: "allocator \<Rightarrow> (nat \<Rightarrow> u64 set) \<Rightarrow> bool" where
  "links_null s S \<longleftrightarrow> (\<forall>q. (\<forall>n\<le>16. q \<notin> S n) \<longrightarrow> next_free s q = None)"

text \<open>
  The global invariants on the sets of listed blocks: every block is aligned to its
  order, the page ranges of any two listed blocks are disjoint (so a block is in one
  list only), and no block is listed together with its buddy below the last order.
  \<open>covered\<close> is the set of page numbers that are free.
\<close>

definition blocks_aligned :: "(nat \<Rightarrow> u64 set) \<Rightarrow> bool" where
  "blocks_aligned S \<longleftrightarrow> (\<forall>n\<le>16. \<forall>p\<in>S n. block_aligned (int n) p)"

definition blocks_disjoint :: "(nat \<Rightarrow> u64 set) \<Rightarrow> bool" where
  "blocks_disjoint S \<longleftrightarrow>
     (\<forall>n\<le>16. \<forall>m\<le>16. \<forall>p\<in>S n. \<forall>q\<in>S m. (n, p) \<noteq> (m, q) \<longrightarrow> pages n p \<inter> pages m q = {})"

definition no_free_buddies :: "(nat \<Rightarrow> u64 set) \<Rightarrow> bool" where
  "no_free_buddies S \<longleftrightarrow> (\<forall>n<16. \<forall>p\<in>S n. get_buddy (int n) p \<notin> S n)"

definition covered :: "(nat \<Rightarrow> u64 set) \<Rightarrow> nat set" where
  "covered S = (\<Union>n\<in>{..16}. \<Union>p\<in>S n. pages n p)"

text \<open>The lower block of a pair of buddies.\<close>

definition first_buddy :: "nat \<Rightarrow> u64 \<Rightarrow> u64" where
  "first_buddy n p = (if p < get_buddy (int n) p then p else get_buddy (int n) p)"

definition second_buddy :: "nat \<Rightarrow> u64 \<Rightarrow> u64" where
  "second_buddy n p = (if p < get_buddy (int n) p then get_buddy (int n) p else p)"

text \<open>One merge on the sets: both buddies leave order \<open>n\<close>, the lower one enters the next.\<close>

definition merge_step :: "(nat \<Rightarrow> u64 set) \<Rightarrow> nat \<Rightarrow> u64 \<Rightarrow> (nat \<Rightarrow> u64 set)" where
  "merge_step S n p =
     (S(n := S n - {p, get_buddy (int n) p}))(Suc n := insert (first_buddy n p) (S (Suc n)))"

text \<open>The cascade of merges that starts with the block \<open>p\<close> of order \<open>n\<close>.\<close>

function a_merge :: "(nat \<Rightarrow> u64 set) \<Rightarrow> nat \<Rightarrow> u64 \<Rightarrow> (nat \<Rightarrow> u64 set)" where
  "a_merge S n p =
     (if n < 16 \<and> get_buddy (int n) p \<in> S n
      then a_merge (merge_step S n p) (Suc n) (first_buddy n p) else S)"
  by pat_completeness auto

termination
  by (relation "measure (\<lambda>(S, n, p). 16 - n)") auto

declare a_merge.simps [simp del]

definition a_free :: "(nat \<Rightarrow> u64 set) \<Rightarrow> nat \<Rightarrow> u64 \<Rightarrow> (nat \<Rightarrow> u64 set)" where
  "a_free S n p = a_merge (S(n := insert p (S n))) n p"

text \<open>No two buddies are both free, except possibly the block \<open>p\<close> of order \<open>n\<close> and its buddy.\<close>

definition no_free_buddies_except :: "(nat \<Rightarrow> u64 set) \<Rightarrow> nat \<Rightarrow> u64 \<Rightarrow> bool" where
  "no_free_buddies_except S n p \<longleftrightarrow>
     (\<forall>m<16. \<forall>q\<in>S m. get_buddy (int m) q \<in> S m \<longrightarrow>
        m = n \<and> (q = p \<or> q = get_buddy (int n) p))"

text \<open>
  The invariants as properties of the allocator state itself.  \<open>free_set s n\<close> is the set
  of blocks listed at order \<open>n\<close>; \<open>well_formed\<close> says that every list ends and is
  strictly ascending in PFN (so it has no duplicates).
\<close>

definition free_set :: "allocator \<Rightarrow> nat \<Rightarrow> u64 set" where
  "free_set s n = {p. \<exists>xs. free_list_of s n xs \<and> p \<in> set xs}"

definition well_formed :: "allocator \<Rightarrow> bool" where
  "well_formed s \<longleftrightarrow> (\<forall>n\<le>16. \<exists>xs. free_list_of s n xs \<and> sorted_wrt (<) xs)"

text \<open>
  One split on the sets: the block \<open>b\<close> leaves order \<open>k\<close> and its two halves enter the
  order below; and the sets after splitting from order \<open>k\<close> down to order \<open>t\<close>.
\<close>

definition split_step :: "(nat \<Rightarrow> u64 set) \<Rightarrow> nat \<Rightarrow> u64 \<Rightarrow> (nat \<Rightarrow> u64 set)" where
  "split_step S k b = (S(k := S k - {b}))(k - 1 := {b, b + 2 ^ (k - 1)})"

definition split_result :: "(nat \<Rightarrow> u64 set) \<Rightarrow> nat \<Rightarrow> nat \<Rightarrow> u64 \<Rightarrow> (nat \<Rightarrow> u64 set)" where
  "split_result S k t b =
     (\<lambda>j. if j = k then S k - {b}
          else if t < j \<and> j < k then {b + 2 ^ j}
          else if j = t then {b, b + 2 ^ t}
          else S j)"

text \<open>
  The sets after a successful \<open>allocate_pages\<close> of order \<open>n\<close>, where \<open>k\<close> is the lowest
  order from \<open>n\<close> up with a non-empty list: the head of order \<open>k\<close> is taken, and for
  \<open>k > n\<close> the upper halves of the splits stay behind, one at each order below \<open>k\<close>.
\<close>

definition alloc_sets :: "(nat \<Rightarrow> u64 set) \<Rightarrow> nat \<Rightarrow> nat \<Rightarrow> (nat \<Rightarrow> u64 set)" where
  "alloc_sets S n k =
     (if k = n then S(n := S n - {Min (S n)})
      else (split_result S k n (Min (S k)))(n := {Min (S k) + 2 ^ n}))"

text \<open>
  The invariants of a state, with the sets of free blocks given: the lists hold these
  sets in ascending order, the blocks are aligned and pairwise disjoint, and no two
  buddies are free together.
\<close>

definition sets_invariant :: "allocator \<Rightarrow> (nat \<Rightarrow> u64 set) \<Rightarrow> bool" where
  "sets_invariant s S \<longleftrightarrow>
     free_sets s S \<and> blocks_aligned S \<and> blocks_disjoint S \<and> no_free_buddies S"

text \<open>
  The pages \<open>pfn, \<dots>, pfn + c - 1\<close> exist as page frame numbers and none of them lies in
  a free block.
\<close>

definition range_fresh :: "(nat \<Rightarrow> u64 set) \<Rightarrow> u64 \<Rightarrow> nat \<Rightarrow> bool" where
  "range_fresh S pfn c \<longleftrightarrow>
     unat pfn + c < 2 ^ 64 \<and> {unat pfn ..< unat pfn + c} \<inter> covered S = {}"

text \<open>
  The states the allocator can be in between two public calls.  It is constructed over
  arbitrary memory; each public call that returns leads to the next state.  A call that
  fails an assertion halts the kernel, so no state follows it.  The callers keep to the
  stated preconditions: \<open>free_pages\<close> is given an order-aligned block and
  \<open>insert_free_pages\<close> a range, none of whose pages is free already.  Between two calls
  the owner of a page that is not free may write to it, the link word included.
\<close>

inductive reachable :: "allocator \<Rightarrow> bool" where
  constructed: "reachable (page_allocator_buddy links bytes)"
| allocated: "reachable s \<Longrightarrow> allocate_pages s order flags = Inr (r, s') \<Longrightarrow> reachable s'"
| freed: "reachable s \<Longrightarrow> block_aligned order p
    \<Longrightarrow> pages (nat order) p \<inter> covered (free_set s) = {}
    \<Longrightarrow> free_pages s p order = Inr s' \<Longrightarrow> reachable s'"
| inserted: "reachable s
    \<Longrightarrow> {unat pfn ..< unat pfn + unat page_count} \<inter> covered (free_set s) = {}
    \<Longrightarrow> insert_free_pages s pfn page_count = Inr s' \<Longrightarrow> reachable s'"
| written: "reachable s \<Longrightarrow> unat q \<notin> covered (free_set s)
    \<Longrightarrow> reachable (s\<lparr>next_free := (next_free s)(q := link),
                      frame_body := (frame_body s)(q := bytes)\<rparr>)"

text \<open>
  States of a short run over zeroed memory.  \<open>insert_free_pages\<close> for PFN 0 and two pages
  lists the pair at order 1; allocating one page splits the pair, returns PFN 0 and
  leaves PFN 1 listed at order 0.
\<close>

definition two_page_allocator :: allocator where
  "two_page_allocator = zero_memory_allocator\<lparr>free_list := (\<lambda>i. None)(1 := Some 0)\<rparr>"

definition upper_page_allocator :: allocator where
  "upper_page_allocator = zero_memory_allocator\<lparr>free_list := (\<lambda>i. None)(0 := Some 1)\<rparr>"

text \<open>
  The owner of the allocated page at PFN 0 has stored a pointer to the descriptor of
  page 1 in the first word of its page: with PFN 1 still free, and with no page free.
\<close>

definition stale_upper_allocator :: allocator where
  "stale_upper_allocator = upper_page_allocator\<lparr>next_free := (\<lambda>p. None)(0 := Some 1)\<rparr>"

definition stale_link_allocator :: allocator where
  "stale_link_allocator = zero_memory_allocator\<lparr>next_free := (\<lambda>p. None)(0 := Some 1)\<rparr>"

section \<open>Linked lists in memory\<close>

lemma is_list_None [simp]: "is_list nf None xs \<longleftrightarrow> xs = []"
  by (cases xs) simp_all

lemma is_list_Some: "is_list nf (Some x) xs \<longleftrightarrow> (\<exists>ys. xs = x # ys \<and> is_list nf (nf x) ys)"
  by (cases xs) auto

lemma is_list_unique: "is_list nf h xs \<Longrightarrow> is_list nf h ys \<Longrightarrow> xs = ys"
proof (induction xs arbitrary: h ys)
  case Nil
  then show ?case by simp
next
  case (Cons x xs)
  then show ?case by (cases ys) auto
qed

lemma is_list_update: "a \<notin> set xs \<Longrightarrow> is_list (nf(a := v)) h xs = is_list nf h xs"
  by (induction xs arbitrary: h) auto

lemma is_list_append:
  "is_list nf h (xs @ ys) \<Longrightarrow> is_list nf (if xs = [] then h else nf (last xs)) ys"
  by (induction xs arbitrary: h) auto

lemma is_list_head_notin: "is_list nf (nf a) xs \<Longrightarrow> a \<notin> set xs"
proof
  assume l: "is_list nf (nf a) xs" and "a \<in> set xs"
  then obtain ys zs where xs: "xs = ys @ a # zs"
    by (auto simp add: in_set_conv_decomp)
  from l have "is_list nf (if ys = [] then nf a else nf (last ys)) (a # zs)"
    unfolding xs by (rule is_list_append)
  then have "is_list nf (nf a) zs"
    by simp
  with l have "xs = zs"
    by (rule is_list_unique)
  then show False
    using xs by simp
qed

lemma is_list_distinct: "is_list nf h xs \<Longrightarrow> distinct xs"
  by (induction xs arbitrary: h) (auto dest: is_list_head_notin)

text \<open>The two traversals on a well-formed list.\<close>

lemma get_slot_loop_walk:
  assumes "is_list (next_free s) (slot_get s sl) xs"
  shows "get_slot_loop s t sl =
           Some (if takeWhile (\<lambda>q. q < t) xs = [] then sl
                 else Next_slot (last (takeWhile (\<lambda>q. q < t) xs)))"
  using assms
proof (induction xs arbitrary: sl)
  case Nil
  then show ?case
    by (subst get_slot_loop.simps) simp
next
  case (Cons x xs)
  from Cons.prems have h: "slot_get s sl = Some x"
    and l: "is_list (next_free s) (slot_get s (Next_slot x)) xs"
    by simp_all
  show ?case
  proof (cases "x < t")
    case True
    have "get_slot_loop s t sl = get_slot_loop s t (Next_slot x)"
      by (subst get_slot_loop.simps) (simp add: h True)
    then show ?thesis
      using Cons.IH [OF l] True by simp
  next
    case False
    then show ?thesis
      by (subst get_slot_loop.simps) (simp add: h)
  qed
qed

lemma get_candidate_slot_loop_walk:
  assumes "is_list (next_free s) (slot_get s sl) xs"
  shows "get_candidate_slot_loop s t sl =
           Some (if takeWhile (\<lambda>q. q \<noteq> t) xs = [] then sl
                 else Next_slot (last (takeWhile (\<lambda>q. q \<noteq> t) xs)))"
  using assms
proof (induction xs arbitrary: sl)
  case Nil
  then show ?case
    by (subst get_candidate_slot_loop.simps) simp
next
  case (Cons x xs)
  from Cons.prems have h: "slot_get s sl = Some x"
    and l: "is_list (next_free s) (slot_get s (Next_slot x)) xs"
    by simp_all
  show ?case
  proof (cases "x \<noteq> t")
    case True
    have "get_candidate_slot_loop s t sl = get_candidate_slot_loop s t (Next_slot x)"
      by (subst get_candidate_slot_loop.simps) (simp add: h True)
    then show ?thesis
      using Cons.IH [OF l] True by simp
  next
    case False
    then show ?thesis
      by (subst get_candidate_slot_loop.simps) (simp add: h)
  qed
qed

lemma ptr_of_simps [simp]: "ptr_of [] = None" "ptr_of (x # xs) = Some x"
  by (simp_all add: ptr_of_def)

lemma is_list_ptr_of: "is_list nf h xs \<Longrightarrow> h = ptr_of xs"
  by (cases xs) simp_all

lemma is_list_seg: "is_list nf h xs = is_seg nf h xs None"
  by (induction xs arbitrary: h) simp_all

lemma is_seg_append:
  "is_seg nf h (xs @ ys) e \<longleftrightarrow> (\<exists>m. is_seg nf h xs m \<and> is_seg nf m ys e)"
  by (induction xs arbitrary: h) simp_all

lemma is_seg_update: "a \<notin> set xs \<Longrightarrow> is_seg (nf(a := v)) h xs e = is_seg nf h xs e"
  by (induction xs arbitrary: h) auto

lemma is_list_split:
  "is_list nf h (xs @ ys) \<longleftrightarrow> is_seg nf h xs (ptr_of ys) \<and> is_list nf (ptr_of ys) ys"
  by (auto simp add: is_list_seg is_seg_append dest: is_list_ptr_of [unfolded is_list_seg])

lemma is_seg_snoc:
  "is_seg nf h (xs @ [a]) e \<longleftrightarrow> is_seg nf h xs (Some a) \<and> nf a = e"
  by (auto simp add: is_seg_append)

text \<open>Linking a new cell in, behind a non-empty prefix or at the head.\<close>

lemma is_list_link_in:
  assumes l: "is_list nf h (pre @ post)" and ne: "pre \<noteq> []" and p: "p \<notin> set (pre @ post)"
  shows "is_list (nf(p := ptr_of post, last pre := Some p)) h (pre @ p # post)"
proof -
  obtain pre' a where pre: "pre = pre' @ [a]"
    using ne by (meson rev_exhaust)
  have d: "distinct (pre' @ a # post)"
    using is_list_distinct [OF l] pre by simp
  from l have 1: "is_seg nf h pre' (Some a)" and 0: "is_list nf (nf a) post"
    unfolding pre by (simp_all add: is_list_split is_seg_snoc)
  have 2: "nf a = ptr_of post"
    using 0 by (rule is_list_ptr_of)
  have 3: "is_list nf (ptr_of post) post"
    using 0 2 by simp
  let ?nf = "nf(p := ptr_of post, a := Some p)"
  have "is_seg ?nf h pre' (Some a)"
    using 1 d p pre by (simp add: is_seg_update)
  moreover have "?nf a = Some p" by simp
  moreover have "?nf p = ptr_of post"
    using p pre by simp
  moreover have "is_list ?nf (ptr_of post) post"
    using 3 d p pre by (simp add: is_list_update)
  ultimately have "is_list ?nf h ((pre' @ [a]) @ p # post)"
    unfolding is_list_split [of _ _ "pre' @ [a]"] by (simp add: is_seg_snoc)
  then show ?thesis
    by (simp add: pre)
qed

lemma is_list_link_out:
  assumes l: "is_list nf h (pre @ p # post)" and ne: "pre \<noteq> []"
  shows "is_list (nf(last pre := ptr_of post, p := v)) h (pre @ post)"
proof -
  obtain pre' a where pre: "pre = pre' @ [a]"
    using ne by (meson rev_exhaust)
  have d: "distinct (pre' @ a # p # post)"
    using is_list_distinct [OF l] pre by simp
  from l have 1: "is_seg nf h pre' (Some a)" and 3: "is_list nf (nf p) post"
    unfolding pre by (simp_all add: is_list_split is_seg_snoc)
  have 4: "nf p = ptr_of post"
    using 3 by (rule is_list_ptr_of)
  let ?nf = "nf(a := ptr_of post, p := v)"
  have "is_seg ?nf h pre' (Some a)"
    using 1 d by (simp add: is_seg_update)
  moreover have "?nf a = ptr_of post"
    using d by simp
  moreover have "is_list ?nf (ptr_of post) post"
    using 3 4 d by (simp add: is_list_update)
  ultimately have "is_list ?nf h ((pre' @ [a]) @ post)"
    unfolding is_list_split [of _ _ "pre' @ [a]"] by (simp add: is_seg_snoc)
  then show ?thesis
    by (simp add: pre)
qed

section \<open>Effect of the list helpers\<close>

lemma is_list_cong:
  "(\<And>q. q \<in> set xs \<Longrightarrow> nf' q = nf q) \<Longrightarrow> is_list nf' h xs = is_list nf h xs"
  by (induction xs arbitrary: h) auto

lemma free_list_of_frame:
  assumes "free_list_of s m ys" and "free_list s' m = free_list s m"
    and "\<And>q. q \<in> set ys \<Longrightarrow> next_free s' q = next_free s q"
  shows "free_list_of s' m ys"
  using assms by (simp add: free_list_of_def is_list_cong [of ys "next_free s'" "next_free s"])

lemma slot_get_walk:
  assumes "is_list nf h (pre @ post)"
  shows "(if pre = [] then h else nf (last pre)) = ptr_of post"
proof (cases "pre = []")
  case True
  then show ?thesis using assms by (simp add: is_list_ptr_of)
next
  case False
  then obtain pre' a where pre: "pre = pre' @ [a]"
    by (meson rev_exhaust)
  from assms have "is_list nf (nf a) post"
    unfolding pre by (simp add: is_list_split is_seg_snoc)
  then show ?thesis
    using pre by (simp add: is_list_ptr_of)
qed

lemma ptr_of_dropWhile_neq:
  "p \<notin> set xs \<Longrightarrow> ptr_of (dropWhile P xs) \<noteq> Some p"
proof
  assume "p \<notin> set xs" and "ptr_of (dropWhile P xs) = Some p"
  then have "p \<in> set (dropWhile P xs)"
    by (cases "dropWhile P xs") simp_all
  then have "p \<in> set xs"
    by (rule set_dropWhileD)
  then show False
    using \<open>p \<notin> set xs\<close> by simp
qed

lemma get_slot_effect:
  assumes l: "free_list_of s n xs" and p: "p \<notin> set xs" and n: "n \<le> 16"
    and al: "block_aligned (int n) p"
  shows "get_slot s (int n) p =
           Inr (if takeWhile (\<lambda>q. q < p) xs = [] then Head_slot n
                else Next_slot (last (takeWhile (\<lambda>q. q < p) xs)))"
    (is "_ = Inr ?sl")
    and "slot_get s (if takeWhile (\<lambda>q. q < p) xs = [] then Head_slot n
                else Next_slot (last (takeWhile (\<lambda>q. q < p) xs))) =
           ptr_of (dropWhile (\<lambda>q. q < p) xs)"
proof -
  let ?pre = "takeWhile (\<lambda>q. q < p) xs" and ?post = "dropWhile (\<lambda>q. q < p) xs"
  from l have l': "is_list (next_free s) (slot_get s (Head_slot n)) xs"
    by (simp add: free_list_of_def)
  have w: "get_slot_loop s p (Head_slot n) = Some ?sl"
    by (rule get_slot_loop_walk [OF l'])
  have "is_list (next_free s) (free_list s n) (?pre @ ?post)"
    using l by (simp add: free_list_of_def)
  from slot_get_walk [OF this]
  show g: "slot_get s ?sl = ptr_of ?post"
    by (auto split: if_splits)
  have "slot_get s ?sl \<noteq> Some p"
    unfolding g using p by (rule ptr_of_dropWhile_neq)
  then show "get_slot s (int n) p = Inr ?sl"
    using n al w by (simp add: get_slot_def LastOrder_def)
qed

lemma insert_free_block_list:
  assumes l: "free_list_of s n xs" and p: "p \<notin> set xs" and n: "n \<le> 16"
    and al: "block_aligned (int n) p"
  shows "\<exists>s'. insert_free_block s (int n) p = Inr s'
          \<and> free_list_of s' n (takeWhile (\<lambda>q. q < p) xs @ p # dropWhile (\<lambda>q. q < p) xs)
          \<and> (\<forall>m. m \<noteq> n \<longrightarrow> free_list s' m = free_list s m)
          \<and> (\<forall>q. q \<noteq> p \<longrightarrow> q \<notin> set xs \<longrightarrow> next_free s' q = next_free s q)
          \<and> frame_body s' = frame_body s"
proof -
  let ?pre = "takeWhile (\<lambda>q. q < p) xs" and ?post = "dropWhile (\<lambda>q. q < p) xs"
  let ?sl = "if ?pre = [] then Head_slot n else Next_slot (last ?pre)"
  let ?s' = "slot_set (set_next_free s p (ptr_of ?post)) ?sl (Some p)"
  have g: "get_slot s (int n) p = Inr ?sl" and v: "slot_get s ?sl = ptr_of ?post"
    using get_slot_effect [OF l p n al] by simp_all
  have r: "insert_free_block s (int n) p = Inr ?s'"
    by (simp add: insert_free_block_def g v Let_def del: slot_get.simps slot_set.simps)
  have l0: "is_list (next_free s) (free_list s n) (?pre @ ?post)"
    using l by (simp add: free_list_of_def)
  have p0: "p \<notin> set (?pre @ ?post)"
    using p by simp
  have "free_list_of ?s' n (?pre @ p # ?post)"
  proof (cases "?pre = []")
    case True
    have "is_list (next_free s) (free_list s n) ?post"
      using l0 True by simp
    then have "is_list (next_free s) (ptr_of ?post) ?post"
      using is_list_ptr_of by fastforce
    moreover have "p \<notin> set ?post"
      using p by (meson set_dropWhileD)
    ultimately have "is_list ((next_free s)(p := ptr_of ?post)) (ptr_of ?post) ?post"
      by (simp add: is_list_update)
    then show ?thesis
      using True by (simp add: free_list_of_def set_next_free_def)
  next
    case False
    have "is_list ((next_free s)(p := ptr_of ?post, last ?pre := Some p)) (free_list s n)
            (?pre @ p # ?post)"
      using l0 False p0 by (rule is_list_link_in)
    then show ?thesis
      using False by (simp add: free_list_of_def set_next_free_def)
  qed
  moreover have "\<forall>m. m \<noteq> n \<longrightarrow> free_list ?s' m = free_list s m"
    by (simp add: set_next_free_def)
  moreover have "\<forall>q. q \<noteq> p \<longrightarrow> q \<notin> set xs \<longrightarrow> next_free ?s' q = next_free s q"
  proof (intro allI impI)
    fix q assume "q \<noteq> p" "q \<notin> set xs"
    moreover have "?pre \<noteq> [] \<Longrightarrow> last ?pre \<in> set xs"
      by (meson last_in_set set_takeWhileD)
    ultimately show "next_free ?s' q = next_free s q"
      by (auto simp add: set_next_free_def)
  qed
  moreover have "frame_body ?s' = frame_body s"
    by (simp add: set_next_free_def)
  ultimately show ?thesis
    using r by blast
qed

lemma takeWhile_neq_decomp:
  "p \<notin> set pre \<Longrightarrow> takeWhile (\<lambda>q. q \<noteq> p) (pre @ p # post) = pre"
  by (induction pre) auto

lemma get_candidate_slot_effect:
  assumes l: "free_list_of s n (pre @ p # post)" and n: "n \<le> 16"
    and al: "block_aligned (int n) p"
  shows "get_candidate_slot s (int n) p =
           Inr (if pre = [] then Head_slot n else Next_slot (last pre))"
proof -
  let ?sl = "if pre = [] then Head_slot n else Next_slot (last pre)"
  from l have l': "is_list (next_free s) (slot_get s (Head_slot n)) (pre @ p # post)"
    by (simp add: free_list_of_def)
  have "distinct (pre @ p # post)"
    using l' by (rule is_list_distinct)
  then have t: "takeWhile (\<lambda>q. q \<noteq> p) (pre @ p # post) = pre"
    by (simp add: takeWhile_neq_decomp)
  have w: "get_candidate_slot_loop s p (Head_slot n) = Some ?sl"
    using get_candidate_slot_loop_walk [OF l', of p] unfolding t .
  have "is_list (next_free s) (free_list s n) (pre @ p # post)"
    using l by (simp add: free_list_of_def)
  from slot_get_walk [OF this]
  have "slot_get s ?sl = Some p"
    by (auto split: if_splits)
  then show ?thesis
    using n al w by (simp add: get_candidate_slot_def LastOrder_def)
qed

lemma next_free_in_list:
  assumes "free_list_of s n (pre @ p # post)"
  shows "next_free s p = ptr_of post"
proof -
  from assms have "is_list (next_free s) (free_list s n) ((pre @ [p]) @ post)"
    by (simp add: free_list_of_def)
  from slot_get_walk [OF this] show ?thesis
    by simp
qed

lemma remove_free_block_list:
  assumes l: "free_list_of s n (pre @ p # post)" and n: "n \<le> 16"
    and al: "block_aligned (int n) p"
  shows "\<exists>s'. remove_free_block s (int n) p = Inr s'
          \<and> free_list_of s' n (pre @ post)
          \<and> (\<forall>m. m \<noteq> n \<longrightarrow> free_list s' m = free_list s m)
          \<and> (\<forall>q. q \<noteq> p \<longrightarrow> q \<notin> set pre \<longrightarrow> next_free s' q = next_free s q)
          \<and> next_free s' p = None
          \<and> frame_body s' = frame_body s"
proof -
  let ?sl = "if pre = [] then Head_slot n else Next_slot (last pre)"
  let ?s' = "set_next_free (slot_set s ?sl (ptr_of post)) p None"
  have nx: "next_free s p = ptr_of post"
    using l by (rule next_free_in_list)
  have r: "remove_free_block s (int n) p = Inr ?s'"
    by (simp add: remove_free_block_def get_candidate_slot_effect [OF l n al] nx Let_def
        del: slot_set.simps)
  have l0: "is_list (next_free s) (free_list s n) (pre @ p # post)"
    using l by (simp add: free_list_of_def)
  have d: "distinct (pre @ p # post)"
    using l0 by (rule is_list_distinct)
  have "free_list_of ?s' n (pre @ post)"
  proof (cases "pre = []")
    case True
    have "is_list (next_free s) (next_free s p) post"
      using l0 True by simp
    then have "is_list ((next_free s)(p := None)) (ptr_of post) post"
      using d nx by (simp add: is_list_update)
    then show ?thesis
      using True by (simp add: free_list_of_def set_next_free_def)
  next
    case False
    have "is_list ((next_free s)(last pre := ptr_of post, p := None)) (free_list s n)
            (pre @ post)"
      using l0 False by (rule is_list_link_out)
    then show ?thesis
      using False by (simp add: free_list_of_def set_next_free_def)
  qed
  moreover have "\<forall>m. m \<noteq> n \<longrightarrow> free_list ?s' m = free_list s m"
    by (simp add: set_next_free_def)
  moreover have "\<forall>q. q \<noteq> p \<longrightarrow> q \<notin> set pre \<longrightarrow> next_free ?s' q = next_free s q"
    by (auto simp add: set_next_free_def)
  moreover have "next_free ?s' p = None" "frame_body ?s' = frame_body s"
    by (simp_all add: set_next_free_def)
  ultimately show ?thesis
    using r by blast
qed

lemma is_list_link_out2:
  assumes l: "is_list nf h (pre @ a # b # post)" and ne: "pre \<noteq> []"
  shows "is_list (nf(last pre := ptr_of post, b := v, a := w)) h (pre @ post)"
proof -
  obtain pre' c where pre: "pre = pre' @ [c]"
    using ne by (meson rev_exhaust)
  have d: "distinct (pre' @ c # a # b # post)"
    using is_list_distinct [OF l] pre by simp
  from l have 1: "is_seg nf h pre' (Some c)" and 3: "is_list nf (nf b) post"
    unfolding pre by (simp_all add: is_list_split is_seg_snoc)
  have 4: "nf b = ptr_of post"
    using 3 by (rule is_list_ptr_of)
  let ?nf = "nf(c := ptr_of post, b := v, a := w)"
  have "is_seg ?nf h pre' (Some c)"
    using 1 d by (simp add: is_seg_update)
  moreover have "?nf c = ptr_of post"
    using d by simp
  moreover have "is_list ?nf (ptr_of post) post"
    using 3 4 d by (simp add: is_list_update)
  ultimately have "is_list ?nf h ((pre' @ [c]) @ post)"
    unfolding is_list_split [of _ _ "pre' @ [c]"] by (simp add: is_seg_snoc)
  then show ?thesis
    by (simp add: pre)
qed

lemma remove_buddies_list:
  assumes l: "free_list_of s n (pre @ a # b # post)" and n: "n \<le> 16"
    and al: "block_aligned (int n) a" "block_aligned (int n) b"
  shows "\<exists>s'. remove_buddies s (int n) a = Inr s'
          \<and> free_list_of s' n (pre @ post)
          \<and> (\<forall>m. m \<noteq> n \<longrightarrow> free_list s' m = free_list s m)
          \<and> (\<forall>q. q \<noteq> a \<longrightarrow> q \<noteq> b \<longrightarrow> q \<notin> set pre \<longrightarrow> next_free s' q = next_free s q)
          \<and> next_free s' a = None \<and> next_free s' b = None
          \<and> frame_body s' = frame_body s"
proof -
  let ?sl = "if pre = [] then Head_slot n else Next_slot (last pre)"
  let ?s' = "set_next_free (set_next_free (slot_set s ?sl (ptr_of post)) b None) a None"
  have nx: "next_free s a = Some b"
    using next_free_in_list [OF l] by simp
  have "free_list_of s n ((pre @ [a]) @ b # post)"
    using l by simp
  then have nx2: "next_free s b = ptr_of post"
    by (rule next_free_in_list)
  have r: "remove_buddies s (int n) a = Inr ?s'"
    by (simp add: remove_buddies_def get_candidate_slot_effect [OF l n al(1)] nx nx2 al Let_def
        del: slot_set.simps)
  have l0: "is_list (next_free s) (free_list s n) (pre @ a # b # post)"
    using l by (simp add: free_list_of_def)
  have d: "distinct (pre @ a # b # post)"
    using l0 by (rule is_list_distinct)
  have "free_list_of ?s' n (pre @ post)"
  proof (cases "pre = []")
    case True
    have "is_list (next_free s) (next_free s b) post"
      using l0 True by simp
    then have "is_list ((next_free s)(b := None, a := None)) (ptr_of post) post"
      using d nx2 by (simp add: is_list_update)
    then show ?thesis
      using True by (simp add: free_list_of_def set_next_free_def)
  next
    case False
    have "is_list ((next_free s)(last pre := ptr_of post, b := None, a := None)) (free_list s n)
            (pre @ post)"
      using l0 False by (rule is_list_link_out2)
    then show ?thesis
      using False by (simp add: free_list_of_def set_next_free_def)
  qed
  moreover have "\<forall>m. m \<noteq> n \<longrightarrow> free_list ?s' m = free_list s m"
    by (simp add: set_next_free_def)
  moreover have "\<forall>q. q \<noteq> a \<longrightarrow> q \<noteq> b \<longrightarrow> q \<notin> set pre \<longrightarrow> next_free ?s' q = next_free s q"
    by (auto simp add: set_next_free_def)
  moreover have "next_free ?s' a = None" "next_free ?s' b = None" "frame_body ?s' = frame_body s"
    using d by (simp_all add: set_next_free_def)
  ultimately show ?thesis
    using r by blast
qed

lemma insert_buddies_list:
  assumes l: "free_list_of s n []" and n: "n \<le> 16"
    and al: "block_aligned (int n) a" "block_aligned (int n) b" and ne: "a \<noteq> b"
  shows "\<exists>s'. insert_buddies s (int n) a b = Inr s'
          \<and> free_list_of s' n [a, b]
          \<and> (\<forall>m. m \<noteq> n \<longrightarrow> free_list s' m = free_list s m)
          \<and> (\<forall>q. q \<noteq> a \<longrightarrow> q \<noteq> b \<longrightarrow> next_free s' q = next_free s q)
          \<and> frame_body s' = frame_body s"
proof -
  let ?s' = "slot_set (set_next_free (set_next_free s a (Some b)) b None) (Head_slot n) (Some a)"
  have g: "get_slot s (int n) a = Inr (Head_slot n)"
    using get_slot_effect(1) [OF l _ n al(1)] by simp
  have h: "free_list s n = None"
    using l by (simp add: free_list_of_def)
  have r: "insert_buddies s (int n) a b = Inr ?s'"
    by (simp add: insert_buddies_def g al Let_def set_next_free_def h)
  moreover have "free_list_of ?s' n [a, b]"
    using ne by (simp add: free_list_of_def set_next_free_def)
  moreover have "\<forall>m. m \<noteq> n \<longrightarrow> free_list ?s' m = free_list s m"
    by (simp add: set_next_free_def)
  moreover have "\<forall>q. q \<noteq> a \<longrightarrow> q \<noteq> b \<longrightarrow> next_free ?s' q = next_free s q"
    by (simp add: set_next_free_def)
  moreover have "frame_body ?s' = frame_body s"
    by (simp add: set_next_free_def)
  ultimately show ?thesis
    by blast
qed

section \<open>Allocation: when the result is null\<close>

lemma get_candidate_slot_loop_head:
  "free_list s i = Some t \<Longrightarrow> get_candidate_slot_loop s t (Head_slot i) = Some (Head_slot i)"
  by (subst get_candidate_slot_loop.simps) simp

lemma get_slot_loop_empty:
  "free_list s i = None \<Longrightarrow> get_slot_loop s t (Head_slot i) = Some (Head_slot i)"
  by (subst get_slot_loop.simps) simp

lemma remove_head_heads:
  assumes "remove_free_block s k b = Inr s1" and "free_list s (nat k) = Some b"
  shows "\<forall>j. j \<noteq> nat k \<longrightarrow> free_list s1 j = free_list s j"
  using assms
  by (auto simp add: remove_free_block_def get_candidate_slot_def get_candidate_slot_loop_head
      set_next_free_def Let_def split: if_splits)

lemma insert_buddies_heads:
  assumes "insert_buddies s k a b = Inr s1" and "free_list s (nat k) = None"
  shows "free_list s1 (nat k) = Some a \<and> (\<forall>j. j \<noteq> nat k \<longrightarrow> free_list s1 j = free_list s j)"
  using assms
  by (auto simp add: insert_buddies_def get_slot_def get_slot_loop_empty
      set_next_free_def Let_def split: if_splits)

lemma split_block_heads:
  assumes r: "split_block s k b = Inr s1" and h: "free_list s (nat k) = Some b"
    and e: "free_list s (nat (k - 1)) = None"
  shows "free_list s1 (nat (k - 1)) = Some b
       \<and> (\<forall>j. j \<noteq> nat k \<longrightarrow> j \<noteq> nat (k - 1) \<longrightarrow> free_list s1 j = free_list s j)"
proof -
  from r have k: "0 < k"
    by (auto simp add: split_block_def split: if_splits)
  from r obtain s0 where 1: "remove_free_block s k b = Inr s0"
    and 2: "insert_buddies s0 (k - 1) b (b + pages_per_block (k - 1)) = Inr s1"
    by (auto simp add: split_block_def Let_def split: if_splits sum.splits)
  have 3: "\<forall>j. j \<noteq> nat k \<longrightarrow> free_list s0 j = free_list s j"
    using 1 h by (rule remove_head_heads)
  have "nat (k - 1) \<noteq> nat k"
    using k by simp
  then have "free_list s0 (nat (k - 1)) = None"
    using 3 e by simp
  from insert_buddies_heads [OF 2 this] 3 show ?thesis
    by simp
qed

lemma split_down_not_null:
  assumes "split_down s k t = Inr (r, s')" and "0 \<le> t" and "t \<le> k"
    and "free_list s (nat k) \<noteq> None"
    and "\<forall>j. t \<le> j \<and> j < k \<longrightarrow> free_list s (nat j) = None"
  shows "r \<noteq> None"
  using assms
proof (induction s k t rule: split_down.induct)
  case (1 s order target_order)
  show ?case
  proof (cases "order > target_order")
    case False
    with "1.prems" have eq: "order = target_order" by simp
    have "split_down s order target_order = Inr (free_list s (nat target_order), s)"
      using False by (subst split_down.simps) simp
    with "1.prems"(1) have "r = free_list s (nat target_order)"
      by auto
    with "1.prems"(4) eq show ?thesis
      by simp
  next
    case True
    from "1.prems"(4) obtain b where b: "free_list s (nat order) = Some b"
      by auto
    from "1.prems"(1) True b obtain s1 where sb: "split_block s order b = Inr s1"
      and rec: "split_down s1 (order - 1) target_order = Inr (r, s')"
      by (subst (asm) split_down.simps) (auto split: sum.splits)
    have e: "free_list s (nat (order - 1)) = None"
      using "1.prems" True by simp
    note hs = split_block_heads [OF sb b e]
    have "\<forall>j. target_order \<le> j \<and> j < order - 1 \<longrightarrow> free_list s1 (nat j) = None"
    proof (intro allI impI)
      fix j assume j: "target_order \<le> j \<and> j < order - 1"
      then have "nat j \<noteq> nat order" "nat j \<noteq> nat (order - 1)"
        using "1.prems"(2) by arith+
      then have "free_list s1 (nat j) = free_list s (nat j)"
        using hs by simp
      then show "free_list s1 (nat j) = None"
        using "1.prems"(5) j by simp
    qed
    moreover have "free_list s1 (nat (order - 1)) \<noteq> None"
      using hs by simp
    ultimately show ?thesis
      using "1.IH" [OF True b sb rec "1.prems"(2)] True by simp
  qed
qed

lemma split_scan_step:
  "order \<le> LastOrder \<Longrightarrow> free_list s (nat order) = None \<Longrightarrow>
   split_scan s order = split_scan s (order + 1)"
  by (subst split_scan.simps) simp

lemma split_scan_stay:
  "\<not> (order \<le> LastOrder \<and> free_list s (nat order) = None) \<Longrightarrow> split_scan s order = order"
  by (subst split_scan.simps) auto

lemma split_scan_ge: "order \<le> split_scan s order"
proof (induction s order rule: split_scan.induct)
  case (1 s order)
  then show ?case
    by (subst split_scan.simps) auto
qed

lemma split_scan_empty_below:
  "order \<le> j \<Longrightarrow> j < split_scan s order \<Longrightarrow> free_list s (nat j) = None"
proof (induction s order rule: split_scan.induct)
  case (1 s order)
  show ?case
  proof (cases "order \<le> LastOrder \<and> free_list s (nat order) = None")
    case True
    then have eq: "split_scan s order = split_scan s (order + 1)"
      by (simp add: split_scan_step)
    show ?thesis
    proof (cases "j = order")
      case True
      then show ?thesis using \<open>order \<le> LastOrder \<and> free_list s (nat order) = None\<close> by simp
    next
      case False
      then show ?thesis
        using "1.IH" [OF True] "1.prems" eq by simp
    qed
  next
    case False
    then have "split_scan s order = order"
      by (rule split_scan_stay)
    then show ?thesis
      using "1.prems" by simp
  qed
qed

lemma split_scan_stop:
  "split_scan s order \<le> LastOrder \<Longrightarrow> free_list s (nat (split_scan s order)) \<noteq> None"
proof (induction s order rule: split_scan.induct)
  case (1 s order)
  show ?case
  proof (cases "order \<le> LastOrder \<and> free_list s (nat order) = None")
    case True
    then have eq: "split_scan s order = split_scan s (order + 1)"
      by (simp add: split_scan_step)
    then show ?thesis
      using "1.IH" [OF True] "1.prems" by simp
  next
    case False
    then have eq: "split_scan s order = order"
      by (rule split_scan_stay)
    then show ?thesis
      using False "1.prems" by auto
  qed
qed

lemma split_scan_all_empty:
  "\<forall>j. order \<le> j \<and> j \<le> LastOrder \<longrightarrow> free_list s (nat j) = None \<Longrightarrow>
   order \<le> LastOrder + 1 \<Longrightarrow> split_scan s order = LastOrder + 1"
proof (induction s order rule: split_scan.induct)
  case (1 s order)
  show ?case
  proof (cases "order \<le> LastOrder")
    case True
    then have "split_scan s order = split_scan s (order + 1)"
      using "1.prems" by (simp add: split_scan_step)
    then show ?thesis
      using "1.IH" "1.prems" True by simp
  next
    case False
    then show ?thesis
      using "1.prems" by (simp add: split_scan_stay)
  qed
qed

lemma iterative_split_null_iff:
  assumes "0 \<le> order" and "order \<le> LastOrder"
  shows "(\<exists>s'. iterative_split s order = Inr (None, s')) \<longleftrightarrow>
         (\<forall>k. order \<le> k \<and> k \<le> LastOrder \<longrightarrow> free_list s (nat k) = None)"
    and "iterative_split s order = Inr (None, s') \<Longrightarrow> s' = s"
proof -
  let ?k = "split_scan s (order + 1)"
  have ge: "order + 1 \<le> ?k"
    by (rule split_scan_ge)
  have down: "\<And>r s'. free_list s (nat order) = None \<Longrightarrow> ?k \<le> LastOrder \<Longrightarrow>
      split_down s ?k order = Inr (r, s') \<Longrightarrow> r \<noteq> None"
  proof -
    fix r s'
    assume e: "free_list s (nat order) = None" and k: "?k \<le> LastOrder"
      and sd: "split_down s ?k order = Inr (r, s')"
    have "\<forall>j. order \<le> j \<and> j < ?k \<longrightarrow> free_list s (nat j) = None"
    proof (intro allI impI)
      fix j assume j: "order \<le> j \<and> j < ?k"
      show "free_list s (nat j) = None"
      proof (cases "j = order")
        case True
        then show ?thesis using e by simp
      next
        case False
        then show ?thesis
          using j split_scan_empty_below [of "order + 1" j s] by simp
      qed
    qed
    then show "r \<noteq> None"
      using split_down_not_null [OF sd assms(1) _ split_scan_stop [OF k]] ge by simp
  qed
  show "(\<exists>s'. iterative_split s order = Inr (None, s')) \<longleftrightarrow>
         (\<forall>k. order \<le> k \<and> k \<le> LastOrder \<longrightarrow> free_list s (nat k) = None)"
  proof
    assume "\<exists>s'. iterative_split s order = Inr (None, s')"
    then obtain s' where r: "iterative_split s order = Inr (None, s')" ..
    then have e: "free_list s (nat order) = None"
      using assms by (auto simp add: iterative_split_def split: if_splits)
    have "\<not> ?k \<le> LastOrder"
      using r e assms down by (auto simp add: iterative_split_def Let_def split: if_splits)
    then have big: "LastOrder < ?k"
      by simp
    show "\<forall>k. order \<le> k \<and> k \<le> LastOrder \<longrightarrow> free_list s (nat k) = None"
    proof (intro allI impI)
      fix k assume k: "order \<le> k \<and> k \<le> LastOrder"
      show "free_list s (nat k) = None"
      proof (cases "k = order")
        case True
        then show ?thesis using e by simp
      next
        case False
        then have "order + 1 \<le> k" "k < ?k"
          using k big by simp_all
        then show ?thesis
          by (rule split_scan_empty_below)
      qed
    qed
  next
    assume a: "\<forall>k. order \<le> k \<and> k \<le> LastOrder \<longrightarrow> free_list s (nat k) = None"
    then have "split_scan s (order + 1) = LastOrder + 1"
      using assms by (intro split_scan_all_empty) simp_all
    then show "\<exists>s'. iterative_split s order = Inr (None, s')"
      using a assms by (simp add: iterative_split_def)
  qed
  show "iterative_split s order = Inr (None, s') \<Longrightarrow> s' = s"
    using assms down by (auto simp add: iterative_split_def Let_def split: if_splits)
qed

section \<open>Arithmetic of aligned blocks and buddies\<close>

lemma bit_unat_div: "bit (p :: u64) n \<longleftrightarrow> odd (unat p div 2 ^ n)"
  unfolding bit_nat_def [symmetric] by (simp add: bit_unsigned_iff)

lemma unat_2p: "n < 64 \<Longrightarrow> unat (2 ^ n :: u64) = 2 ^ n"
  by (simp add: unsigned_eq_0_iff unat_eq_nat_uint uint_2p nat_power_eq word_greater_zero_iff)

lemma multiple_bound:
  fixes a d N :: nat
  assumes "d dvd a" and "d dvd N" and "a < N"
  shows "a + d \<le> N"
proof -
  from assms(1) obtain m where a: "a = d * m" ..
  from assms(2) obtain M where N: "N = d * M" ..
  from assms(3) have "m < M"
    unfolding a N by (rule mult_less_cancel1 [THEN iffD1, THEN conjunct2])
  then have "Suc m \<le> M"
    by simp
  then have "d * Suc m \<le> d * M"
    by (rule mult_le_mono2)
  then show ?thesis
    unfolding a N by simp
qed

lemma unat_block_end:
  assumes "2 ^ k dvd unat (p :: u64)" and "k \<le> 64"
  shows "unat p + 2 ^ k \<le> 2 ^ 64"
proof -
  have "(2::nat) ^ k dvd 2 ^ 64"
    using assms(2) by (rule le_imp_power_dvd)
  moreover have "unat p < 2 ^ 64"
    using unsigned_less [of p] by simp
  ultimately show ?thesis
    by (rule multiple_bound [OF assms(1)])
qed

lemma unat_add_2p:
  assumes "2 ^ k dvd unat (p :: u64)" and "j < k" and "k \<le> 64"
  shows "unat (p + 2 ^ j) = unat p + 2 ^ j"
proof -
  have "unat p + 2 ^ k \<le> 2 ^ 64"
    using assms(1,3) by (rule unat_block_end)
  moreover have "(2::nat) ^ j < 2 ^ k"
    using assms(2) by simp
  ultimately have "unat p + 2 ^ j < 2 ^ 64"
    by linarith
  moreover have j: "unat (2 ^ j :: u64) = 2 ^ j"
    using assms by (simp add: unat_2p)
  ultimately have "unat p + unat (2 ^ j :: u64) < 2 ^ LENGTH(64)"
    by simp
  then have "unat (p + 2 ^ j) = unat p + unat (2 ^ j :: u64)"
    by (simp only: unat_add_lem)
  then show ?thesis
    using j by simp
qed

lemma unat_sub_2p:
  assumes "bit (p :: u64) n"
  shows "unat (p - 2 ^ n) = unat p - 2 ^ n" and "2 ^ n \<le> unat p"
proof -
  have n: "n < 64"
    using assms by (auto dest: bit_imp_le_length)
  have "odd (unat p div 2 ^ n)"
    using assms by (simp add: bit_unat_div)
  then have "unat p div 2 ^ n \<noteq> 0"
    by (metis even_zero)
  then show le: "2 ^ n \<le> unat p"
    by (metis div_less not_le)
  then have "(2 ^ n :: u64) \<le> p"
    using n by (simp add: word_le_nat_alt unat_2p)
  then show "unat (p - 2 ^ n) = unat p - 2 ^ n"
    using n by (simp add: unat_sub unat_2p)
qed

lemma block_aligned_iff: "n < 64 \<Longrightarrow> block_aligned (int n) p \<longleftrightarrow> 2 ^ n dvd unat p"
proof -
  assume n: "n < 64"
  have "pages_per_block (int n) - 1 = (mask n :: u64)"
    by (simp add: pages_per_block_def mask_eq_exp_minus_1)
  then have "block_aligned (int n) p \<longleftrightarrow> take_bit n p = 0"
    by (simp add: block_aligned_def take_bit_eq_mask)
  also have "\<dots> \<longleftrightarrow> unat (take_bit n p) = 0"
    by (simp add: unat_eq_0)
  also have "\<dots> \<longleftrightarrow> take_bit n (unat p) = 0"
    by (simp add: unsigned_take_bit_eq)
  also have "\<dots> \<longleftrightarrow> 2 ^ n dvd unat p"
    by (simp add: take_bit_eq_0_iff)
  finally show ?thesis .
qed

lemma get_buddy_eq:
  "get_buddy (int n) p = (if bit p n then p - 2 ^ n else p + 2 ^ n)"
proof -
  have "get_buddy (int n) p = flip_bit n p"
    by (simp add: get_buddy_def pages_per_block_def flip_bit_eq_xor)
  also have "\<dots> = (if bit p n then unset_bit n p else set_bit n p)"
    by (simp add: flip_bit_eq_if)
  also have "\<dots> = (if bit p n then p - 2 ^ n else p + 2 ^ n)"
    by (simp add: set_bit_eq unset_bit_eq)
  finally show ?thesis .
qed

lemma get_buddy_involution: "get_buddy order (get_buddy order p) = p"
  by (simp add: get_buddy_def xor.assoc)

lemma dvd_next_power:
  fixes a :: nat
  assumes "2 ^ n dvd a" and "even (a div 2 ^ n)"
  shows "2 ^ Suc n dvd a"
proof -
  from assms(1) obtain m where a: "a = 2 ^ n * m" ..
  then have "a div 2 ^ n = m"
    by simp
  with assms(2) obtain l where "m = 2 * l"
    by (auto elim: evenE)
  with a have "a = 2 ^ Suc n * l"
    by simp
  then show ?thesis
    by simp
qed

text \<open>The two buddies, seen as natural numbers.\<close>

lemma unat_get_buddy:
  assumes n: "n < 64" and al: "block_aligned (int n) p"
  shows "unat (get_buddy (int n) p) =
           (if bit p n then unat p - 2 ^ n else unat p + 2 ^ n)"
proof (cases "bit p n")
  case True
  then show ?thesis
    by (simp add: get_buddy_eq unat_sub_2p)
next
  case False
  have d: "2 ^ n dvd unat p"
    using al n by (simp add: block_aligned_iff)
  have "even (unat p div 2 ^ n)"
    using False by (simp add: bit_unat_div)
  with d have "2 ^ Suc n dvd unat p"
    by (rule dvd_next_power)
  then have "unat (p + 2 ^ n) = unat p + 2 ^ n"
    using n by (intro unat_add_2p [where k = "Suc n"]) simp_all
  then show ?thesis
    using False by (simp add: get_buddy_eq)
qed

lemma buddy_pair:
  assumes n: "n < 64" and al: "block_aligned (int n) p"
  defines "b \<equiv> get_buddy (int n) p"
  defines "f \<equiv> (if p < b then p else b)" and "g \<equiv> (if p < b then b else p)"
  shows "f < g \<and> unat g = unat f + 2 ^ n \<and> 2 ^ Suc n dvd unat f
       \<and> 2 ^ n dvd unat g \<and> block_aligned (int n) b"
proof -
  have d: "2 ^ n dvd unat p"
    using al n by (simp add: block_aligned_iff)
  have ub: "unat b = (if bit p n then unat p - 2 ^ n else unat p + 2 ^ n)"
    unfolding b_def using n al by (rule unat_get_buddy)
  show ?thesis
  proof (cases "bit p n")
    case True
    then have le: "2 ^ n \<le> unat p"
      by (rule unat_sub_2p)
    have u: "unat b = unat p - 2 ^ n"
      using ub True by simp
    have "(0::nat) < 2 ^ n"
      by simp
    then have lt: "b < p"
      unfolding word_less_nat_alt u using le by linarith
    then have fg: "f = b" "g = p"
      by (auto simp add: f_def g_def)
    have 1: "f < g" using lt fg by simp
    have 2: "unat g = unat f + 2 ^ n"
      using fg u le by simp
    have db: "2 ^ n dvd unat b"
      using d u le by (simp add: dvd_diff_nat)
    from d obtain m where m: "unat p = 2 ^ n * m" ..
    have "odd (unat p div 2 ^ n)"
      using True by (simp add: bit_unat_div)
    then have "odd m"
      unfolding m by simp
    have "unat b = 2 ^ n * (m - 1)"
      unfolding u m by (simp add: diff_mult_distrib2)
    then have "unat b div 2 ^ n = m - 1"
      by simp
    with \<open>odd m\<close> have "even (unat b div 2 ^ n)"
      by simp
    with db have 3: "2 ^ Suc n dvd unat f"
      unfolding fg by (rule dvd_next_power)
    have 4: "2 ^ n dvd unat g" using d fg by simp
    have 5: "block_aligned (int n) b"
      using db n by (simp add: block_aligned_iff)
    from 1 2 3 4 5 show ?thesis
      by blast
  next
    case False
    have u: "unat b = unat p + 2 ^ n"
      using ub False by simp
    then have lt: "p < b"
      by (simp add: word_less_nat_alt)
    then have fg: "f = p" "g = b"
      by (auto simp add: f_def g_def)
    have 1: "f < g" using lt fg by simp
    have 2: "unat g = unat f + 2 ^ n"
      using fg u by simp
    have "even (unat p div 2 ^ n)"
      using False by (simp add: bit_unat_div)
    with d have 3: "2 ^ Suc n dvd unat f"
      unfolding fg by (rule dvd_next_power)
    have 4: "2 ^ n dvd unat g"
      using d fg u by simp
    then have 5: "block_aligned (int n) b"
      using fg n by (simp add: block_aligned_iff)
    from 1 2 3 4 5 show ?thesis
      by blast
  qed
qed

lemma aligned_step:
  assumes "2 ^ n dvd unat (f :: u64)" and "2 ^ n dvd unat (q :: u64)" and "f < q"
  shows "unat f + 2 ^ n \<le> unat q"
proof -
  from assms(1) obtain a where a: "unat f = 2 ^ n * a" ..
  from assms(2) obtain b where b: "unat q = 2 ^ n * b" ..
  have "unat f < unat q"
    using assms(3) by (simp add: word_less_nat_alt)
  then have "a < b"
    unfolding a b by simp
  then have "Suc a \<le> b"
    by simp
  then have "(2::nat) ^ n * Suc a \<le> 2 ^ n * b"
    by (rule mult_le_mono2)
  then show ?thesis
    unfolding a b by simp
qed

lemma pages_merge:
  assumes "unat g = unat f + 2 ^ n"
  shows "pages (Suc n) f = pages n f \<union> pages n g"
  using assms by (auto simp add: pages_def)

lemma unat_in_pages: "unat p \<in> pages n p"
  by (simp add: pages_def)

section \<open>Null results and zeroed blocks\<close>

text \<open>
  Claim C5.  In every state, \<open>allocate_pages\<close> returns the null pointer exactly when the
  order is outside \<open>[0, LastOrder]\<close> or every free list from the requested order up to
  \<open>LastOrder\<close> is empty, so that there is nothing to take or to split; the state is then
  unchanged.  For an order out of range \<open>free_pages\<close> halts on its assertion.
\<close>

theorem allocate_pages_null_iff:
  "((\<exists>s'. allocate_pages s order flags = Inr (None, s')) \<longleftrightarrow>
      (order < 0 \<or> LastOrder < order \<or>
       (\<forall>k. order \<le> k \<and> k \<le> LastOrder \<longrightarrow> free_list s (nat k) = None)))
   \<and> (allocate_pages s order flags = Inr (None, s') \<longrightarrow> s' = s)
   \<and> (order < 0 \<or> LastOrder < order \<longrightarrow>
        allocate_pages s order flags = Inr (None, s)
        \<and> free_pages s block_start order = Inl Assertion_failed)"
proof (cases "order < 0 \<or> LastOrder < order")
  case True
  then show ?thesis
    by (auto simp add: allocate_pages_def free_pages_def)
next
  case False
  then have r: "0 \<le> order" "order \<le> LastOrder"
    by simp_all
  have eq: "\<And>s'. allocate_pages s order flags = Inr (None, s') \<longleftrightarrow>
             iterative_split s order = Inr (None, s')"
    using False
    by (auto simp add: allocate_pages_def split: sum.splits option.splits prod.splits)
  show ?thesis
    using False iterative_split_null_iff [OF r, of s] by (simp add: eq)
qed

theorem allocate_pages_null_iff_witness:
  "LastOrder < 17
   \<and> allocate_pages zero_memory_allocator 17 flag_none = Inr (None, zero_memory_allocator)
   \<and> free_pages zero_memory_allocator 0 17 = Inl Assertion_failed
   \<and> (\<exists>s'. allocate_pages zero_memory_allocator 3 flag_none = Inr (None, s'))"
proof -
  have e: "\<forall>k. 3 \<le> k \<and> k \<le> LastOrder \<longrightarrow> free_list zero_memory_allocator (nat k) = None"
    by (simp add: zero_memory_allocator_def page_allocator_buddy_def)
  show ?thesis
    using allocate_pages_null_iff [of zero_memory_allocator 17 flag_none zero_memory_allocator 0]
      allocate_pages_null_iff [of zero_memory_allocator 3 flag_none zero_memory_allocator 0] e
    by (simp add: LastOrder_def)
qed

lemma unat_pages: "n \<le> 16 \<Longrightarrow> unat (push_bit n 1 :: u64) = 2 ^ n"
  by (simp add: unat_2p)

text \<open>
  Claim C6.  When \<open>allocate_pages\<close> is called with the \<open>zero\<close> flag and returns the page
  \<open>p\<close>, each of the \<open>2 ^ order\<close> frames of the block is cleared on return: its link word is
  null and all its other bytes are zero.
\<close>

theorem allocate_pages_zero_flag:
  assumes "allocate_pages s order flags = Inr (Some p, s')"
    and "flags AND flag_zero = flag_zero"
  shows "\<forall>i < 2 ^ nat order.
           next_free s' (p + of_nat i) = None \<and> (\<forall>off. frame_body s' (p + of_nat i) off = 0)"
proof (intro allI impI)
  fix i :: nat assume i: "i < 2 ^ nat order"
  from assms(1) have r: "0 \<le> order" "order \<le> LastOrder"
    by (auto simp add: allocate_pages_def split: if_splits)
  then have n: "nat order \<le> 16"
    by (simp add: LastOrder_def)
  from assms obtain s2 where s': "s' = pzero s2 p (push_bit (nat order) 1)"
    by (auto simp add: allocate_pages_def split: if_splits sum.splits option.splits prod.splits)
  have "i < unat (push_bit (nat order) 1 :: u64)"
    using i n by (simp add: unat_2p)
  moreover have "unat (of_nat i :: u64) \<le> i"
    by (simp add: unat_of_nat)
  ultimately have "(of_nat i :: u64) < push_bit (nat order) 1"
    unfolding word_less_nat_alt by (rule le_less_trans [rotated])
  then show "next_free s' (p + of_nat i) = None \<and> (\<forall>off. frame_body s' (p + of_nat i) off = 0)"
    by (simp add: s' pzero_def)
qed

lemma alloc_one: "allocate_pages one_page_allocator 0 flag_zero =
  Inr (Some 0, pzero (one_page_allocator\<lparr>free_list := (\<lambda>i. None)\<rparr>) 0 1)"
    by (simp add: allocate_pages_def one_page_allocator_def
        zero_memory_allocator_def page_allocator_buddy_def iterative_split_def LastOrder_def
        remove_free_block_def get_candidate_slot_def get_candidate_slot_loop_head
        block_aligned_def pages_per_block_def set_next_free_def flag_zero_def)

lemma alloc_dirty_pair:
  "allocate_pages dirty_pair_allocator 1 flags =
     Inr (Some 0,
          if flags AND flag_zero = flag_zero
          then pzero (dirty_pair_allocator\<lparr>free_list := (\<lambda>i. None)\<rparr>) 0 2
          else dirty_pair_allocator\<lparr>free_list := (\<lambda>i. None)\<rparr>)"
  by (simp add: allocate_pages_def dirty_pair_allocator_def
      page_allocator_buddy_def iterative_split_def LastOrder_def
      remove_free_block_def get_candidate_slot_def get_candidate_slot_loop_head
      block_aligned_def pages_per_block_def set_next_free_def)

theorem allocate_pages_zero_flag_witness:
  "flag_zero AND flag_zero = flag_zero
   \<and> frame_body dirty_pair_allocator 0 0 = 0xAA \<and> frame_body dirty_pair_allocator 1 0 = 0xAA
   \<and> next_free dirty_pair_allocator 1 = Some 7
   \<and> (\<exists>s'. allocate_pages dirty_pair_allocator 1 flag_zero = Inr (Some 0, s')
          \<and> next_free s' 0 = None \<and> (\<forall>off. frame_body s' 0 off = 0)
          \<and> next_free s' 1 = None \<and> (\<forall>off. frame_body s' 1 off = 0)
          \<and> frame_body s' 2 0 = 0xAA)
   \<and> (\<exists>s'. allocate_pages dirty_pair_allocator 1 flag_none = Inr (Some 0, s')
          \<and> frame_body s' 0 0 = 0xAA \<and> next_free s' 1 = Some 7)"
proof -
  have f: "flag_zero AND flag_zero = flag_zero"
    by simp
  have n: "flag_none AND flag_zero \<noteq> flag_zero"
    by (simp add: flag_none_def flag_zero_def)
  define s' where "s' = pzero (dirty_pair_allocator\<lparr>free_list := (\<lambda>i. None)\<rparr>) 0 2"
  have a: "allocate_pages dirty_pair_allocator 1 flag_zero = Inr (Some 0, s')"
    unfolding s'_def by (simp add: alloc_dirty_pair)
  note z = allocate_pages_zero_flag [OF a f, rule_format]
  have "next_free s' 0 = None \<and> (\<forall>off. frame_body s' 0 off = 0)"
    using z [of 0] by simp
  moreover have "next_free s' 1 = None \<and> (\<forall>off. frame_body s' 1 off = 0)"
    using z [of 1] by simp
  moreover have "frame_body s' 2 0 = 0xAA"
    by (simp add: s'_def pzero_def dirty_pair_allocator_def page_allocator_buddy_def)
  moreover have "frame_body dirty_pair_allocator 0 0 = 0xAA"
    "frame_body dirty_pair_allocator 1 0 = 0xAA" "next_free dirty_pair_allocator 1 = Some 7"
    by (simp_all add: dirty_pair_allocator_def page_allocator_buddy_def)
  ultimately show ?thesis
    using a f n by (simp add: alloc_dirty_pair)
qed

section \<open>Sorted lists of sets\<close>

lemma slos_eqI:
  fixes xs :: "'a::linorder list"
  assumes "sorted_wrt (<) xs" and "set xs = A"
  shows "sorted_list_of_set A = xs"
proof -
  have "finite A"
    using assms(2) by auto
  have "sorted xs" "distinct xs"
    using assms(1) strict_sorted_iff by auto
  then show ?thesis
    using assms(2) \<open>finite A\<close>
    by (metis sorted_list_of_set.idem_if_sorted_distinct)
qed

lemma sorted_wrt_insert_split:
  fixes xs :: "'a::linorder list"
  assumes "sorted_wrt (<) xs" and "p \<notin> set xs"
  shows "sorted_wrt (<) (takeWhile (\<lambda>q. q < p) xs @ p # dropWhile (\<lambda>q. q < p) xs)"
  using assms
proof (induction xs)
  case Nil
  then show ?case by simp
next
  case (Cons x xs)
  show ?case
  proof (cases "x < p")
    case True
    then show ?thesis
      using Cons by (auto dest: set_takeWhileD set_dropWhileD)
  next
    case False
    then have "p < x"
      using Cons.prems by auto
    then show ?thesis
      using Cons.prems False by auto
  qed
qed

lemma slos_insert:
  fixes A :: "'a::linorder set"
  assumes "finite A" and "p \<notin> A"
  shows "takeWhile (\<lambda>q. q < p) (sorted_list_of_set A) @ p #
           dropWhile (\<lambda>q. q < p) (sorted_list_of_set A) = sorted_list_of_set (insert p A)"
proof -
  let ?xs = "sorted_list_of_set A"
  have "sorted_wrt (<) ?xs"
    by (rule strict_sorted_list_of_set)
  moreover have "p \<notin> set ?xs"
    using assms by simp
  ultimately have "sorted_wrt (<) (takeWhile (\<lambda>q. q < p) ?xs @ p # dropWhile (\<lambda>q. q < p) ?xs)"
    by (rule sorted_wrt_insert_split)
  moreover have "set (takeWhile (\<lambda>q. q < p) ?xs @ p # dropWhile (\<lambda>q. q < p) ?xs) = insert p A"
  proof -
    have "set (takeWhile (\<lambda>q. q < p) ?xs @ dropWhile (\<lambda>q. q < p) ?xs) = A"
      using assms(1) by simp
    then show ?thesis
      by (simp only: set_append set_simps) blast
  qed
  ultimately show ?thesis
    by (rule slos_eqI [symmetric])
qed

lemma slos_remove:
  fixes A :: "'a::linorder set"
  assumes "finite A" and "p \<in> A"
  shows "\<exists>pre post. sorted_list_of_set A = pre @ p # post
           \<and> pre @ post = sorted_list_of_set (A - {p})"
proof -
  let ?xs = "sorted_list_of_set A"
  have "p \<in> set ?xs"
    using assms by simp
  then obtain pre post where xs: "?xs = pre @ p # post"
    by (auto simp add: in_set_conv_decomp)
  have s: "sorted_wrt (<) (pre @ p # post)"
    using strict_sorted_list_of_set [of A] xs by simp
  then have "sorted_wrt (<) (pre @ post)"
    by (auto simp add: sorted_wrt_append)
  moreover have "set (pre @ post) = A - {p}"
  proof -
    have "set (pre @ p # post) = A"
      using assms(1) xs [symmetric] by simp
    moreover have "p \<notin> set pre" "p \<notin> set post"
      using s by (auto simp add: sorted_wrt_append)
    ultimately show ?thesis
      by auto
  qed
  ultimately have "sorted_list_of_set (A - {p}) = pre @ post"
    by (rule slos_eqI)
  with xs show ?thesis
    by auto
qed

lemma slos_remove_pair:
  fixes A :: "'a::linorder set"
  assumes "finite A" and "f \<in> A" and "g \<in> A" and "f < g"
    and "\<forall>q\<in>A. \<not> (f < q \<and> q < g)"
  shows "\<exists>pre post. sorted_list_of_set A = pre @ f # g # post
           \<and> pre @ post = sorted_list_of_set (A - {f, g})"
proof -
  let ?xs = "sorted_list_of_set A"
  have "f \<in> set ?xs"
    using assms by simp
  then obtain pre rest where xs: "?xs = pre @ f # rest"
    by (auto simp add: in_set_conv_decomp)
  have s: "sorted_wrt (<) (pre @ f # rest)"
    using strict_sorted_list_of_set [of A] xs by simp
  have A: "set (pre @ f # rest) = A"
    using assms(1) xs [symmetric] by simp
  have "g \<in> set rest"
  proof -
    have "g \<in> set (pre @ f # rest)"
      using A assms(3) by simp
    moreover have "g \<notin> set pre"
      using s assms(4) by (auto simp add: sorted_wrt_append)
    ultimately show ?thesis
      using assms(4) by auto
  qed
  then obtain c post where rest: "rest = c # post"
    by (cases rest) auto
  have "c = g"
  proof (rule ccontr)
    assume "c \<noteq> g"
    then have "g \<in> set post"
      using \<open>g \<in> set rest\<close> rest by simp
    then have "c < g"
      using s rest by (auto simp add: sorted_wrt_append)
    moreover have "f < c"
      using s rest by (auto simp add: sorted_wrt_append)
    moreover have "c \<in> A"
      using A rest by auto
    ultimately show False
      using assms(5) by blast
  qed
  have s2: "sorted_wrt (<) (pre @ f # g # post)"
    using s rest \<open>c = g\<close> by simp
  then have "sorted_wrt (<) (pre @ post)"
    by (auto simp add: sorted_wrt_append)
  moreover have "set (pre @ post) = A - {f, g}"
  proof -
    have "set (pre @ f # g # post) = A"
      using A rest \<open>c = g\<close> by simp
    moreover have "f \<notin> set pre" "f \<notin> set post" "g \<notin> set pre" "g \<notin> set post"
      using s2 by (auto simp add: sorted_wrt_append)
    ultimately show ?thesis
      by auto
  qed
  ultimately have "sorted_list_of_set (A - {f, g}) = pre @ post"
    by (rule slos_eqI)
  with xs rest \<open>c = g\<close> show ?thesis
    by auto
qed

lemma slos_pair:
  fixes a b :: "'a::linorder"
  shows "a < b \<Longrightarrow> sorted_list_of_set {a, b} = [a, b]"
  by (rule slos_eqI) auto

section \<open>The list helpers on free sets\<close>

lemma free_sets_frame:
  assumes fs: "free_sets s S" and dj: "sets_disjoint S" and n: "n \<le> 16"
    and l: "free_list_of s' n (sorted_list_of_set A)"
    and heads: "\<forall>m. m \<noteq> n \<longrightarrow> free_list s' m = free_list s m"
    and links: "\<forall>q. q \<notin> S n \<longrightarrow> q \<notin> X \<longrightarrow> next_free s' q = next_free s q"
    and X: "\<forall>m\<le>16. m \<noteq> n \<longrightarrow> X \<inter> S m = {}"
  shows "free_sets s' (S(n := A))"
  unfolding free_sets_def
proof (intro allI impI)
  fix m :: nat assume m: "m \<le> 16"
  show "free_list_of s' m (sorted_list_of_set ((S(n := A)) m))"
  proof (cases "m = n")
    case True
    then show ?thesis using l by simp
  next
    case False
    have "free_list_of s m (sorted_list_of_set (S m))"
      using fs m by (simp add: free_sets_def)
    moreover have "free_list s' m = free_list s m"
      using heads False by simp
    moreover have "\<And>q. q \<in> set (sorted_list_of_set (S m)) \<Longrightarrow> next_free s' q = next_free s q"
    proof -
      fix q assume "q \<in> set (sorted_list_of_set (S m))"
      then have q: "q \<in> S m"
        by simp
      then have "q \<notin> S n"
        using dj m n False by (auto simp add: sets_disjoint_def)
      moreover have "q \<notin> X"
        using X m False q by auto
      ultimately show "next_free s' q = next_free s q"
        using links by simp
    qed
    ultimately have "free_list_of s' m (sorted_list_of_set (S m))"
      by (rule free_list_of_frame)
    then show ?thesis
      using False by simp
  qed
qed

lemma insert_free_block_sets:
  assumes fs: "free_sets s S" and dj: "sets_disjoint S" and n: "n \<le> 16"
    and al: "block_aligned (int n) p" and fresh: "\<forall>m\<le>16. p \<notin> S m"
  shows "\<exists>s'. insert_free_block s (int n) p = Inr s'
          \<and> free_sets s' (S(n := insert p (S n)))
          \<and> (links_null s S \<longrightarrow> links_null s' (S(n := insert p (S n))))"
proof -
  let ?xs = "sorted_list_of_set (S n)"
  have l: "free_list_of s n ?xs"
    using fs n by (simp add: free_sets_def)
  have p: "p \<notin> set ?xs"
    using fresh n by simp
  from insert_free_block_list [OF l p n al] obtain s'
    where r: "insert_free_block s (int n) p = Inr s'"
      and l': "free_list_of s' n (takeWhile (\<lambda>q. q < p) ?xs @ p # dropWhile (\<lambda>q. q < p) ?xs)"
      and heads: "\<forall>m. m \<noteq> n \<longrightarrow> free_list s' m = free_list s m"
      and links: "\<forall>q. q \<noteq> p \<longrightarrow> q \<notin> set ?xs \<longrightarrow> next_free s' q = next_free s q"
    by blast
  have l2: "free_list_of s' n (sorted_list_of_set (insert p (S n)))"
    using l' fresh n by (simp add: slos_insert)
  have "free_sets s' (S(n := insert p (S n)))"
    using fs dj n l2 heads
  proof (rule free_sets_frame)
    show "\<forall>q. q \<notin> S n \<longrightarrow> q \<notin> {p} \<longrightarrow> next_free s' q = next_free s q"
      using links by simp
    show "\<forall>m\<le>16. m \<noteq> n \<longrightarrow> {p} \<inter> S m = {}"
      using fresh by simp
  qed
  moreover have "links_null s' (S(n := insert p (S n)))" if "links_null s S"
    unfolding links_null_def
  proof (intro allI impI)
    fix q assume q: "\<forall>m\<le>16. q \<notin> (S(n := insert p (S n))) m"
    then have "q \<noteq> p" "q \<notin> S n"
      using n by (auto split: if_splits)
    moreover have "\<forall>m\<le>16. q \<notin> S m"
      using q by (auto split: if_splits)
    ultimately show "next_free s' q = None"
      using links that by (simp add: links_null_def)
  qed
  ultimately show ?thesis
    using r by blast
qed

lemma remove_free_block_sets:
  assumes fs: "free_sets s S" and dj: "sets_disjoint S" and n: "n \<le> 16"
    and al: "block_aligned (int n) p" and p: "p \<in> S n"
  shows "\<exists>s'. remove_free_block s (int n) p = Inr s'
          \<and> free_sets s' (S(n := S n - {p}))
          \<and> (links_null s S \<longrightarrow> links_null s' (S(n := S n - {p})))"
proof -
  obtain pre post where xs: "sorted_list_of_set (S n) = pre @ p # post"
    and ys: "pre @ post = sorted_list_of_set (S n - {p})"
    using slos_remove [of "S n" p] p by auto
  have "free_list_of s n (sorted_list_of_set (S n))"
    using fs n by (simp add: free_sets_def)
  then have l: "free_list_of s n (pre @ p # post)"
    by (simp only: xs)
  from remove_free_block_list [OF l n al] obtain s'
    where r: "remove_free_block s (int n) p = Inr s'"
      and l': "free_list_of s' n (pre @ post)"
      and heads: "\<forall>m. m \<noteq> n \<longrightarrow> free_list s' m = free_list s m"
      and links: "\<forall>q. q \<noteq> p \<longrightarrow> q \<notin> set pre \<longrightarrow> next_free s' q = next_free s q"
      and null: "next_free s' p = None"
    by blast
  have pre: "set pre \<subseteq> S n"
  proof -
    have "set (pre @ p # post) = S n"
      using xs [symmetric] by simp
    then show ?thesis by auto
  qed
  have l2: "free_list_of s' n (sorted_list_of_set (S n - {p}))"
    using l' ys by simp
  have "free_sets s' (S(n := S n - {p}))"
    using fs dj n l2 heads
  proof (rule free_sets_frame)
    show "\<forall>q. q \<notin> S n \<longrightarrow> q \<notin> {} \<longrightarrow> next_free s' q = next_free s q"
      using links pre p by auto
    show "\<forall>m\<le>16. m \<noteq> n \<longrightarrow> {} \<inter> S m = {}"
      by simp
  qed
  moreover have "links_null s' (S(n := S n - {p}))" if "links_null s S"
    unfolding links_null_def
  proof (intro allI impI)
    fix q assume q: "\<forall>m\<le>16. q \<notin> (S(n := S n - {p})) m"
    show "next_free s' q = None"
    proof (cases "q = p")
      case True
      then show ?thesis using null by simp
    next
      case False
      then have "\<forall>m\<le>16. q \<notin> S m"
        using q by (auto split: if_splits)
      moreover from this have "q \<notin> set pre"
        using pre n by auto
      ultimately show ?thesis
        using links that False by (simp add: links_null_def)
    qed
  qed
  ultimately show ?thesis
    using r by blast
qed

lemma remove_buddies_sets:
  assumes fs: "free_sets s S" and dj: "sets_disjoint S" and n: "n \<le> 16"
    and al: "block_aligned (int n) f" "block_aligned (int n) g"
    and fg: "f \<in> S n" "g \<in> S n" "f < g" and adj: "\<forall>q\<in>S n. \<not> (f < q \<and> q < g)"
  shows "\<exists>s'. remove_buddies s (int n) f = Inr s'
          \<and> free_sets s' (S(n := S n - {f, g}))
          \<and> (links_null s S \<longrightarrow> links_null s' (S(n := S n - {f, g})))"
proof -
  obtain pre post where xs: "sorted_list_of_set (S n) = pre @ f # g # post"
    and ys: "pre @ post = sorted_list_of_set (S n - {f, g})"
    using slos_remove_pair [of "S n" f g] fg adj by auto
  have "free_list_of s n (sorted_list_of_set (S n))"
    using fs n by (simp add: free_sets_def)
  then have l: "free_list_of s n (pre @ f # g # post)"
    by (simp only: xs)
  from remove_buddies_list [OF l n al] obtain s'
    where r: "remove_buddies s (int n) f = Inr s'"
      and l': "free_list_of s' n (pre @ post)"
      and heads: "\<forall>m. m \<noteq> n \<longrightarrow> free_list s' m = free_list s m"
      and links: "\<forall>q. q \<noteq> f \<longrightarrow> q \<noteq> g \<longrightarrow> q \<notin> set pre \<longrightarrow> next_free s' q = next_free s q"
      and null: "next_free s' f = None" "next_free s' g = None"
    by blast
  have pre: "set pre \<subseteq> S n"
  proof -
    have "set (pre @ f # g # post) = S n"
      using xs [symmetric] by simp
    then show ?thesis by auto
  qed
  have l2: "free_list_of s' n (sorted_list_of_set (S n - {f, g}))"
    using l' ys by simp
  have "free_sets s' (S(n := S n - {f, g}))"
    using fs dj n l2 heads
  proof (rule free_sets_frame)
    show "\<forall>q. q \<notin> S n \<longrightarrow> q \<notin> {} \<longrightarrow> next_free s' q = next_free s q"
      using links pre fg by auto
    show "\<forall>m\<le>16. m \<noteq> n \<longrightarrow> {} \<inter> S m = {}"
      by simp
  qed
  moreover have "links_null s' (S(n := S n - {f, g}))" if "links_null s S"
    unfolding links_null_def
  proof (intro allI impI)
    fix q assume q: "\<forall>m\<le>16. q \<notin> (S(n := S n - {f, g})) m"
    show "next_free s' q = None"
    proof (cases "q = f \<or> q = g")
      case True
      then show ?thesis using null by auto
    next
      case False
      then have "\<forall>m\<le>16. q \<notin> S m"
        using q by (auto split: if_splits)
      moreover from this have "q \<notin> set pre"
        using pre n by auto
      ultimately show ?thesis
        using links that False by (simp add: links_null_def)
    qed
  qed
  ultimately show ?thesis
    using r by blast
qed

lemma insert_buddies_sets:
  assumes fs: "free_sets s S" and dj: "sets_disjoint S" and n: "n \<le> 16"
    and al: "block_aligned (int n) a" "block_aligned (int n) b"
    and e: "S n = {}" and ab: "a < b" and fresh: "\<forall>m\<le>16. a \<notin> S m \<and> b \<notin> S m"
  shows "\<exists>s'. insert_buddies s (int n) a b = Inr s'
          \<and> free_sets s' (S(n := {a, b}))
          \<and> (links_null s S \<longrightarrow> links_null s' (S(n := {a, b})))"
proof -
  have l: "free_list_of s n []"
    using fs n e by (auto simp add: free_sets_def)
  have ne: "a \<noteq> b"
    using ab by simp
  from insert_buddies_list [OF l n al ne] obtain s'
    where r: "insert_buddies s (int n) a b = Inr s'"
      and l': "free_list_of s' n [a, b]"
      and heads: "\<forall>m. m \<noteq> n \<longrightarrow> free_list s' m = free_list s m"
      and links: "\<forall>q. q \<noteq> a \<longrightarrow> q \<noteq> b \<longrightarrow> next_free s' q = next_free s q"
    by blast
  have l2: "free_list_of s' n (sorted_list_of_set {a, b})"
    using l' ab by (simp only: slos_pair)
  have "free_sets s' (S(n := {a, b}))"
    using fs dj n l2 heads
  proof (rule free_sets_frame)
    show "\<forall>q. q \<notin> S n \<longrightarrow> q \<notin> {a, b} \<longrightarrow> next_free s' q = next_free s q"
      using links by simp
    show "\<forall>m\<le>16. m \<noteq> n \<longrightarrow> {a, b} \<inter> S m = {}"
      using fresh by simp
  qed
  moreover have "links_null s' (S(n := {a, b}))" if "links_null s S"
    unfolding links_null_def
  proof (intro allI impI)
    fix q assume q: "\<forall>m\<le>16. q \<notin> (S(n := {a, b})) m"
    then have "q \<noteq> a" "q \<noteq> b"
      using n by (auto split: if_splits)
    moreover have "\<forall>m\<le>16. q \<notin> S m"
      using q e by (auto split: if_splits)
    ultimately show "next_free s' q = None"
      using links that by (simp add: links_null_def)
  qed
  ultimately show ?thesis
    using r by blast
qed

section \<open>Merging on free sets\<close>

lemma blocks_disjoint_sets: "blocks_disjoint S \<Longrightarrow> sets_disjoint S"
  unfolding sets_disjoint_def
proof (intro allI impI)
  fix n m :: nat
  assume d: "blocks_disjoint S" and nm: "n \<le> 16" "m \<le> 16" "n \<noteq> m"
  show "S n \<inter> S m = {}"
  proof (rule ccontr)
    assume "S n \<inter> S m \<noteq> {}"
    then obtain p where p: "p \<in> S n" "p \<in> S m"
      by auto
    with d nm have "pages n p \<inter> pages m p = {}"
      unfolding blocks_disjoint_def by blast
    moreover have "unat p \<in> pages n p \<inter> pages m p"
      by (simp add: unat_in_pages)
    ultimately show False
      by blast
  qed
qed

lemma buddy_facts:
  assumes n: "n < 64" and al: "block_aligned (int n) p"
  shows "first_buddy n p < second_buddy n p"
    and "unat (second_buddy n p) = unat (first_buddy n p) + 2 ^ n"
    and "block_aligned (int (Suc n)) (first_buddy n p) \<or> Suc n = 64"
    and "block_aligned (int n) (first_buddy n p)"
    and "block_aligned (int n) (second_buddy n p)"
    and "{p, get_buddy (int n) p} = {first_buddy n p, second_buddy n p}"
proof -
  note bp = buddy_pair [OF n al, folded first_buddy_def second_buddy_def]
  show "first_buddy n p < second_buddy n p"
    and "unat (second_buddy n p) = unat (first_buddy n p) + 2 ^ n"
    using bp by simp_all
  have d: "2 ^ Suc n dvd unat (first_buddy n p)"
    using bp by simp
  then show "block_aligned (int (Suc n)) (first_buddy n p) \<or> Suc n = 64"
    using n block_aligned_iff [of "Suc n" "first_buddy n p"] by (cases "Suc n = 64") simp_all
  have "(2::nat) ^ n dvd 2 ^ Suc n"
    by simp
  then have "2 ^ n dvd unat (first_buddy n p)"
    using d by (rule dvd_trans)
  then show "block_aligned (int n) (first_buddy n p)"
    using n by (simp add: block_aligned_iff)
  have "2 ^ n dvd unat (second_buddy n p)"
    using bp by blast
  then show "block_aligned (int n) (second_buddy n p)"
    using n by (simp add: block_aligned_iff)
  show "{p, get_buddy (int n) p} = {first_buddy n p, second_buddy n p}"
    by (auto simp add: first_buddy_def second_buddy_def)
qed

lemma buddies_adjacent:
  assumes n: "n \<le> 16" and al: "blocks_aligned S" and p: "p \<in> S n"
  shows "\<forall>q\<in>S n. \<not> (first_buddy n p < q \<and> q < second_buddy n p)"
proof
  fix q assume q: "q \<in> S n"
  have n64: "n < 64" using n by simp
  have alp: "block_aligned (int n) p" and alq: "block_aligned (int n) q"
    using al n p q by (simp_all add: blocks_aligned_def)
  note bf = buddy_facts [OF n64 alp]
  show "\<not> (first_buddy n p < q \<and> q < second_buddy n p)"
  proof
    assume a: "first_buddy n p < q \<and> q < second_buddy n p"
    have "2 ^ n dvd unat (first_buddy n p)" "2 ^ n dvd unat q"
      using bf(4) alq n64 by (simp_all add: block_aligned_iff)
    then have "unat (first_buddy n p) + 2 ^ n \<le> unat q"
      using a by (intro aligned_step) simp_all
    then have "unat (second_buddy n p) \<le> unat q"
      using bf(2) by simp
    then show False
      using a by (simp add: word_less_nat_alt)
  qed
qed

lemma get_candidate_slot_absent:
  assumes l: "free_list_of s n xs" and p: "p \<notin> set xs"
  shows "\<exists>e. get_candidate_slot s (int n) p = Inl e \<and> e \<noteq> Nontermination"
proof -
  from l have l': "is_list (next_free s) (slot_get s (Head_slot n)) xs"
    by (simp add: free_list_of_def)
  have t: "takeWhile (\<lambda>q. q \<noteq> p) xs = xs"
    using p by (auto simp add: takeWhile_eq_all_conv)
  let ?sl = "if xs = [] then Head_slot n else Next_slot (last xs)"
  have w: "get_candidate_slot_loop s p (Head_slot n) = Some ?sl"
    using get_candidate_slot_loop_walk [OF l', of p] unfolding t .
  have "is_list (next_free s) (free_list s n) (xs @ [])"
    using l by (simp add: free_list_of_def)
  from slot_get_walk [OF this]
  have "slot_get s ?sl = None"
    by (auto split: if_splits)
  then show ?thesis
    using w by (simp add: get_candidate_slot_def)
qed

lemma merge_buddies_unfold:
  assumes "n < 16"
  shows "merge_buddies s (int n) p =
     (if next_free s (first_buddy n p) \<noteq> Some (second_buddy n p) then Inr (None, s)
      else case remove_buddies s (int n) (first_buddy n p) of
             Inl e \<Rightarrow> Inl e
           | Inr s1 \<Rightarrow>
               (case insert_free_block s1 (int (Suc n)) (first_buddy n p) of
                  Inl e \<Rightarrow> Inl e
                | Inr s2 \<Rightarrow> Inr (Some (first_buddy n p), s2)))"
proof -
  have e: "int n + 1 = int (Suc n)" by simp
  show ?thesis
    unfolding merge_buddies_def e using assms
    by (cases "p < get_buddy (int n) p")
      (simp_all add: LastOrder_def Let_def first_buddy_def second_buddy_def
        del: of_nat_Suc cong: sum.case_cong)
qed

lemma merge_buddies_merge:
  assumes fs: "free_sets s S" and al: "blocks_aligned S" and dj: "blocks_disjoint S"
    and n: "n < 16" and p: "p \<in> S n" and b: "get_buddy (int n) p \<in> S n"
  shows "\<exists>s'. merge_buddies s (int n) p = Inr (Some (first_buddy n p), s')
          \<and> free_sets s' (merge_step S n p)
          \<and> (links_null s S \<longrightarrow> links_null s' (merge_step S n p))"
    and "next_free s (first_buddy n p) = Some (second_buddy n p)"
proof -
  let ?f = "first_buddy n p" and ?g = "second_buddy n p"
  have n64: "n < 64" and n16: "n \<le> 16" using n by simp_all
  have alp: "block_aligned (int n) p"
    using al n p by (simp add: blocks_aligned_def)
  note bf = buddy_facts [OF n64 alp]
  have sd: "sets_disjoint S"
    using dj by (rule blocks_disjoint_sets)
  have "{?f, ?g} \<subseteq> S n"
    using p b unfolding bf(6) [symmetric] by simp
  then have fg: "?f \<in> S n" "?g \<in> S n"
    by simp_all
  have adj: "\<forall>q\<in>S n. \<not> (?f < q \<and> q < ?g)"
    using n16 al p by (rule buddies_adjacent)
  obtain pre post where xs: "sorted_list_of_set (S n) = pre @ ?f # ?g # post"
    using slos_remove_pair [of "S n" ?f ?g] fg bf(1) adj by auto
  have "free_list_of s n (sorted_list_of_set (S n))"
    using fs n16 by (simp add: free_sets_def)
  then have "free_list_of s n (pre @ ?f # ?g # post)"
    by (simp only: xs)
  then show test: "next_free s ?f = Some ?g"
    by (simp add: next_free_in_list)
  let ?S1 = "S(n := S n - {?f, ?g})"
  from remove_buddies_sets [OF fs sd n16 bf(4) bf(5) fg bf(1) adj] obtain s1
    where r1: "remove_buddies s (int n) ?f = Inr s1" and fs1: "free_sets s1 ?S1"
      and ln1: "links_null s S \<longrightarrow> links_null s1 ?S1"
    by blast
  have sd1: "sets_disjoint ?S1"
    using sd unfolding sets_disjoint_def by (auto split: if_splits)
  have alf: "block_aligned (int (Suc n)) ?f"
    using bf(3) n by simp
  have fresh: "\<forall>m\<le>16. ?f \<notin> ?S1 m"
  proof (intro allI impI)
    fix m :: nat assume m: "m \<le> 16"
    show "?f \<notin> ?S1 m"
    proof (cases "m = n")
      case True
      then show ?thesis by simp
    next
      case False
      then have "S n \<inter> S m = {}"
        using sd n16 m by (simp add: sets_disjoint_def)
      then show ?thesis
        using fg False by auto
    qed
  qed
  have sn: "Suc n \<le> 16" using n by simp
  from insert_free_block_sets [OF fs1 sd1 sn alf fresh] obtain s2
    where r2: "insert_free_block s1 (int (Suc n)) ?f = Inr s2"
      and fs2: "free_sets s2 (?S1(Suc n := insert ?f (?S1 (Suc n))))"
      and ln2: "links_null s1 ?S1 \<longrightarrow> links_null s2 (?S1(Suc n := insert ?f (?S1 (Suc n))))"
    by blast
  have eq: "?S1(Suc n := insert ?f (?S1 (Suc n))) = merge_step S n p"
    using bf(6) by (simp add: merge_step_def)
  have "merge_buddies s (int n) p = Inr (Some ?f, s2)"
    using test r1 r2 by (simp add: merge_buddies_unfold [OF n])
  then show "\<exists>s'. merge_buddies s (int n) p = Inr (Some ?f, s')
          \<and> free_sets s' (merge_step S n p)
          \<and> (links_null s S \<longrightarrow> links_null s' (merge_step S n p))"
    using fs2 ln1 ln2 unfolding eq by blast
qed

lemma listed_link:
  assumes fs: "free_sets s S" and n: "n \<le> 16" and p: "p \<in> S n"
    and nx: "next_free s p = Some q"
  shows "q \<in> S n"
proof -
  obtain pre post where xs: "sorted_list_of_set (S n) = pre @ p # post"
    using slos_remove [of "S n" p] p by auto
  have "free_list_of s n (sorted_list_of_set (S n))"
    using fs n by (simp add: free_sets_def)
  then have "free_list_of s n (pre @ p # post)"
    by (simp only: xs)
  then have "next_free s p = ptr_of post"
    by (rule next_free_in_list)
  with nx have "q \<in> set post"
    by (cases post) simp_all
  then have "q \<in> set (sorted_list_of_set (S n))"
    unfolding xs by simp
  then show ?thesis
    by simp
qed

lemma merge_buddies_no_merge:
  assumes fs: "free_sets s S" and al: "blocks_aligned S" and dj: "blocks_disjoint S"
    and n: "n < 16" and p: "p \<in> S n" and b: "get_buddy (int n) p \<notin> S n"
  shows "merge_buddies s (int n) p = Inr (None, s)
       \<or> (\<exists>e. merge_buddies s (int n) p = Inl e \<and> e \<noteq> Nontermination) \<and> \<not> links_null s S"
    and "links_null s S \<Longrightarrow> next_free s (first_buddy n p) \<noteq> Some (second_buddy n p)"
proof -
  let ?f = "first_buddy n p" and ?g = "second_buddy n p" and ?b = "get_buddy (int n) p"
  have n16: "n \<le> 16" using n by simp
  have sd: "sets_disjoint S"
    using dj by (rule blocks_disjoint_sets)
  have l: "free_list_of s n (sorted_list_of_set (S n))"
    using fs n16 by (simp add: free_sets_def)
  have "p \<noteq> ?b"
    using p b by auto
  show *: "next_free s ?f \<noteq> Some ?g" if ln: "links_null s S"
  proof (cases "p < ?b")
    case True
    then have "?f = p" "?g = ?b"
      by (simp_all add: first_buddy_def second_buddy_def)
    then show ?thesis
      using listed_link [OF fs n16 p, of ?b] b by auto
  next
    case False
    then have fg: "?f = ?b" "?g = p"
      by (simp_all add: first_buddy_def second_buddy_def)
    show ?thesis
    proof (cases "\<forall>m\<le>16. ?b \<notin> S m")
      case True
      then have "next_free s ?b = None"
        using ln by (simp add: links_null_def)
      then show ?thesis
        using fg by simp
    next
      case False
      then obtain m where m: "m \<le> 16" "?b \<in> S m"
        by auto
      then have "m \<noteq> n"
        using b by auto
      then have "S m \<inter> S n = {}"
        using sd m n16 by (simp add: sets_disjoint_def)
      then have "p \<notin> S m"
        using p by auto
      then show ?thesis
        using listed_link [OF fs m, of p] fg by auto
    qed
  qed
  show "merge_buddies s (int n) p = Inr (None, s)
       \<or> (\<exists>e. merge_buddies s (int n) p = Inl e \<and> e \<noteq> Nontermination) \<and> \<not> links_null s S"
  proof (cases "next_free s ?f = Some ?g")
    case False
    then show ?thesis
      by (simp add: merge_buddies_unfold [OF n])
  next
    case True
    then have nl: "\<not> links_null s S"
      using * by auto
    have "?f \<notin> S n"
    proof
      assume "?f \<in> S n"
      then have "?g \<in> S n"
        using True by (rule listed_link [OF fs n16])
      moreover have "?f = ?b \<or> ?g = ?b"
        by (simp add: first_buddy_def second_buddy_def)
      ultimately show False
        using b \<open>?f \<in> S n\<close> by auto
    qed
    then have "?f \<notin> set (sorted_list_of_set (S n))"
      by simp
    from get_candidate_slot_absent [OF l this]
    obtain e where "get_candidate_slot s (int n) ?f = Inl e" "e \<noteq> Nontermination"
      by blast
    then have "remove_buddies s (int n) ?f = Inl e"
      by (simp add: remove_buddies_def)
    then have "merge_buddies s (int n) p = Inl e"
      using True by (simp add: merge_buddies_unfold [OF n])
    then show ?thesis
      using nl \<open>e \<noteq> Nontermination\<close> by blast
  qed
qed

section \<open>Invariants of the merge cascade\<close>

lemma merge_step_mem:
  "x \<in> merge_step S n p k \<longleftrightarrow>
     (k = Suc n \<and> x = first_buddy n p) \<or>
     (x \<in> S k \<and> \<not> (k = n \<and> (x = p \<or> x = get_buddy (int n) p)))"
  by (auto simp add: merge_step_def)

lemma pages_first_buddy:
  assumes "n < 64" and "block_aligned (int n) p"
  shows "pages (Suc n) (first_buddy n p) = pages n p \<union> pages n (get_buddy (int n) p)"
proof -
  note bf = buddy_facts [OF assms]
  have "pages (Suc n) (first_buddy n p) = pages n (first_buddy n p) \<union> pages n (second_buddy n p)"
    using bf(2) by (rule pages_merge)
  also have "\<dots> = (\<Union>x\<in>{first_buddy n p, second_buddy n p}. pages n x)"
    by simp
  also have "\<dots> = (\<Union>x\<in>{p, get_buddy (int n) p}. pages n x)"
    unfolding bf(6) ..
  finally show ?thesis
    by simp
qed

lemma merge_step_aligned:
  assumes al: "blocks_aligned S" and n: "n < 16" and p: "p \<in> S n"
  shows "blocks_aligned (merge_step S n p)"
  unfolding blocks_aligned_def
proof (intro allI impI ballI)
  fix k x assume k: "k \<le> 16" and x: "x \<in> merge_step S n p k"
  have alp: "block_aligned (int n) p"
    using al n p by (simp add: blocks_aligned_def)
  have "block_aligned (int (Suc n)) (first_buddy n p)"
    using buddy_facts(3) [OF _ alp] n by simp
  then show "block_aligned (int k) x"
    using x al k unfolding merge_step_mem by (auto simp add: blocks_aligned_def)
qed

lemma merge_step_disjoint:
  assumes al: "blocks_aligned S" and dj: "blocks_disjoint S" and n: "n < 16"
    and p: "p \<in> S n" and b: "get_buddy (int n) p \<in> S n"
  shows "blocks_disjoint (merge_step S n p)"
  unfolding blocks_disjoint_def
proof (intro allI impI ballI)
  fix k m x y
  assume k: "k \<le> 16" and m: "m \<le> 16" and x: "x \<in> merge_step S n p k"
    and y: "y \<in> merge_step S n p m" and ne: "(k, x) \<noteq> (m, y)"
  let ?b = "get_buddy (int n) p" and ?f = "first_buddy n p"
  have alp: "block_aligned (int n) p"
    using al n p by (simp add: blocks_aligned_def)
  have pg: "pages (Suc n) ?f = pages n p \<union> pages n ?b"
    using n alp by (intro pages_first_buddy) simp_all
  have n16: "n \<le> 16" using n by simp
  have old: "pages j z \<inter> pages (Suc n) ?f = {}"
    if "j \<le> 16" "z \<in> S j" "\<not> (j = n \<and> (z = p \<or> z = ?b))" for j z
  proof -
    have "pages j z \<inter> pages n p = {}"
      using dj that p n16 unfolding blocks_disjoint_def by blast
    moreover have "pages j z \<inter> pages n ?b = {}"
      using dj that b n16 unfolding blocks_disjoint_def by blast
    ultimately show ?thesis
      unfolding pg by blast
  qed
  consider (new_new) "k = Suc n" "x = ?f" "m = Suc n" "y = ?f"
    | (new_old) "k = Suc n" "x = ?f" "y \<in> S m" "\<not> (m = n \<and> (y = p \<or> y = ?b))"
    | (old_new) "m = Suc n" "y = ?f" "x \<in> S k" "\<not> (k = n \<and> (x = p \<or> x = ?b))"
    | (old_old) "x \<in> S k" "y \<in> S m"
    using x y unfolding merge_step_mem by blast
  then show "pages k x \<inter> pages m y = {}"
  proof cases
    case new_new
    then show ?thesis using ne by simp
  next
    case new_old
    then show ?thesis
      using old [of m y] m by blast
  next
    case old_new
    then show ?thesis
      using old [of k x] k by blast
  next
    case old_old
    then show ?thesis
      using dj k m ne unfolding blocks_disjoint_def by blast
  qed
qed

lemma merge_step_covered:
  assumes al: "blocks_aligned S" and n: "n < 16"
    and p: "p \<in> S n" and b: "get_buddy (int n) p \<in> S n"
  shows "covered (merge_step S n p) = covered S"
proof -
  let ?b = "get_buddy (int n) p" and ?f = "first_buddy n p"
  have alp: "block_aligned (int n) p"
    using al n p by (simp add: blocks_aligned_def)
  have pg: "pages (Suc n) ?f = pages n p \<union> pages n ?b"
    using n alp by (intro pages_first_buddy) simp_all
  have n16: "n \<le> 16" "Suc n \<le> 16" using n by simp_all
  show ?thesis
  proof (intro set_eqI iffI)
    fix i assume "i \<in> covered (merge_step S n p)"
    then obtain k x where k: "k \<le> 16" and x: "x \<in> merge_step S n p k" and i: "i \<in> pages k x"
      by (auto simp add: covered_def)
    from x show "i \<in> covered S"
      unfolding merge_step_mem
    proof
      assume "k = Suc n \<and> x = ?f"
      then have "i \<in> pages n p \<or> i \<in> pages n ?b"
        using i pg by auto
      then show ?thesis
        using p b n16 by (auto simp add: covered_def)
    next
      assume "x \<in> S k \<and> \<not> (k = n \<and> (x = p \<or> x = ?b))"
      then show ?thesis
        using i k by (auto simp add: covered_def)
    qed
  next
    fix i assume "i \<in> covered S"
    then obtain k x where k: "k \<le> 16" and x: "x \<in> S k" and i: "i \<in> pages k x"
      by (auto simp add: covered_def)
    show "i \<in> covered (merge_step S n p)"
    proof (cases "k = n \<and> (x = p \<or> x = ?b)")
      case True
      then have "i \<in> pages (Suc n) ?f"
        using i pg by auto
      moreover have "?f \<in> merge_step S n p (Suc n)"
        by (simp add: merge_step_mem)
      ultimately show ?thesis
        using n16 by (auto simp add: covered_def)
    next
      case False
      then have "x \<in> merge_step S n p k"
        using x by (simp add: merge_step_mem)
      then show ?thesis
        using i k by (auto simp add: covered_def)
    qed
  qed
qed

lemma merge_step_except:
  assumes "no_free_buddies_except S n p"
  shows "no_free_buddies_except (merge_step S n p) (Suc n) (first_buddy n p)"
  unfolding no_free_buddies_except_def
proof (intro allI impI ballI)
  fix m q
  assume m: "m < 16" and q: "q \<in> merge_step S n p m"
    and bq: "get_buddy (int m) q \<in> merge_step S n p m"
  let ?f = "first_buddy n p"
  show "m = Suc n \<and> (q = ?f \<or> q = get_buddy (int (Suc n)) ?f)"
  proof (cases "m = Suc n \<and> (q = ?f \<or> get_buddy (int m) q = ?f)")
    case True
    then show ?thesis
      using get_buddy_involution [of "int m" q] by auto
  next
    case False
    then have "q \<in> S m" "get_buddy (int m) q \<in> S m"
      and ne: "\<not> (m = n \<and> (q = p \<or> q = get_buddy (int n) p))"
      using q bq unfolding merge_step_mem by auto
    then have "m = n \<and> (q = p \<or> q = get_buddy (int n) p)"
      using assms m unfolding no_free_buddies_except_def by blast
    with ne show ?thesis
      by simp
  qed
qed

lemma a_merge_no_free_buddies:
  "no_free_buddies_except S n p \<Longrightarrow> p \<in> S n \<Longrightarrow> no_free_buddies (a_merge S n p)"
proof (induction S n p rule: a_merge.induct)
  case (1 S n p)
  show ?case
  proof (cases "n < 16 \<and> get_buddy (int n) p \<in> S n")
    case True
    have "first_buddy n p \<in> merge_step S n p (Suc n)"
      by (simp add: merge_step_mem)
    with "1.IH" [OF True merge_step_except [OF "1.prems"(1)]] True show ?thesis
      by (subst a_merge.simps) simp
  next
    case False
    have "no_free_buddies S"
      unfolding no_free_buddies_def
    proof (intro allI impI ballI)
      fix m q assume m: "m < 16" and q: "q \<in> S m"
      show "get_buddy (int m) q \<notin> S m"
      proof
        assume "get_buddy (int m) q \<in> S m"
        then have "m = n \<and> (q = p \<or> q = get_buddy (int n) p)"
          using "1.prems"(1) m q unfolding no_free_buddies_except_def by blast
        then show False
          using False m q "1.prems"(2) \<open>get_buddy (int m) q \<in> S m\<close> by auto
      qed
    qed
    then show ?thesis
      using False by (subst a_merge.simps) auto
  qed
qed

lemma insert_except:
  assumes "no_free_buddies S"
  shows "no_free_buddies_except (S(n := insert p (S n))) n p"
  unfolding no_free_buddies_except_def
proof (intro allI impI ballI)
  fix m q
  assume m: "m < 16" and q: "q \<in> (S(n := insert p (S n))) m"
    and bq: "get_buddy (int m) q \<in> (S(n := insert p (S n))) m"
  show "m = n \<and> (q = p \<or> q = get_buddy (int n) p)"
  proof (cases "m = n \<and> (q = p \<or> get_buddy (int m) q = p)")
    case True
    then show ?thesis
      using get_buddy_involution [of "int m" q] by auto
  next
    case False
    then have "q \<in> S m" "get_buddy (int m) q \<in> S m"
      using q bq by (auto split: if_splits)
    then show ?thesis
      using assms m unfolding no_free_buddies_def by blast
  qed
qed

lemma a_merge_invariants:
  assumes "blocks_aligned S" and "blocks_disjoint S" and "n \<le> 16" and "p \<in> S n"
  shows "blocks_aligned (a_merge S n p) \<and> blocks_disjoint (a_merge S n p)
       \<and> covered (a_merge S n p) = covered S"
  using assms
proof (induction S n p rule: a_merge.induct)
  case (1 S n p)
  show ?case
  proof (cases "n < 16 \<and> get_buddy (int n) p \<in> S n")
    case True
    then have n: "n < 16" and b: "get_buddy (int n) p \<in> S n"
      by simp_all
    note al = merge_step_aligned [OF "1.prems"(1) n "1.prems"(4)]
    note dj = merge_step_disjoint [OF "1.prems"(1,2) n "1.prems"(4) b]
    note cv = merge_step_covered [OF "1.prems"(1) n "1.prems"(4) b]
    have "first_buddy n p \<in> merge_step S n p (Suc n)"
      by (simp add: merge_step_mem)
    moreover have "Suc n \<le> 16" using n by simp
    ultimately show ?thesis
      using "1.IH" [OF True al dj] True cv by (subst (1 2 3) a_merge.simps) simp
  next
    case False
    then show ?thesis
      using "1.prems" by (subst (1 2 3) a_merge.simps) auto
  qed
qed

lemma iterative_merge_None: "iterative_merge s order None = Inr s"
  by (subst iterative_merge.simps) simp

lemma iterative_merge_sets:
  assumes "free_sets s S" and "blocks_aligned S" and "blocks_disjoint S"
    and "n \<le> 16" and "p \<in> S n"
  shows "(\<exists>s'. iterative_merge s (int n) (Some p) = Inr s' \<and> free_sets s' (a_merge S n p)
            \<and> (links_null s S \<longrightarrow> links_null s' (a_merge S n p)))
       \<or> (\<exists>e. iterative_merge s (int n) (Some p) = Inl e \<and> e \<noteq> Nontermination)
            \<and> \<not> links_null s S"
  using assms
proof (induction S n p arbitrary: s rule: a_merge.induct)
  case (1 S n p)
  show ?case
  proof (cases "n < 16")
    case False
    then have "iterative_merge s (int n) (Some p) = Inr s"
      by (subst iterative_merge.simps) (simp add: LastOrder_def)
    moreover have "a_merge S n p = S"
      using False by (subst a_merge.simps) simp
    ultimately show ?thesis
      using "1.prems" by simp
  next
    case n: True
    have unf: "iterative_merge s (int n) (Some p) =
        (case merge_buddies s (int n) p of Inl e \<Rightarrow> Inl e
         | Inr (r, s1) \<Rightarrow> iterative_merge s1 (int (Suc n)) r)"
    proof -
      have e: "int n + 1 = int (Suc n)" by simp
      have "iterative_merge s (int n) (Some p) =
        (case merge_buddies s (int n) p of Inl e \<Rightarrow> Inl e
         | Inr (r, s1) \<Rightarrow> iterative_merge s1 (int n + 1) r)"
        using n by (subst iterative_merge.simps) (simp add: LastOrder_def)
      then show ?thesis
        unfolding e .
    qed
    show ?thesis
    proof (cases "get_buddy (int n) p \<in> S n")
      case False
      then have am: "a_merge S n p = S"
        by (subst a_merge.simps) simp
      from merge_buddies_no_merge(1) [OF "1.prems"(1,2,3) n "1.prems"(5) False]
      show ?thesis
      proof
        assume "merge_buddies s (int n) p = Inr (None, s)"
        then have "iterative_merge s (int n) (Some p) = Inr s"
          unfolding unf by (simp add: iterative_merge_None)
        then show ?thesis
          using am "1.prems" by simp
      next
        assume "(\<exists>e. merge_buddies s (int n) p = Inl e \<and> e \<noteq> Nontermination) \<and> \<not> links_null s S"
        then show ?thesis
          unfolding unf by auto
      qed
    next
      case b: True
      then have am: "a_merge S n p = a_merge (merge_step S n p) (Suc n) (first_buddy n p)"
        using n by (subst a_merge.simps) simp
      from merge_buddies_merge(1) [OF "1.prems"(1,2,3) n "1.prems"(5) b] obtain s1
        where r: "merge_buddies s (int n) p = Inr (Some (first_buddy n p), s1)"
          and fs1: "free_sets s1 (merge_step S n p)"
          and ln1: "links_null s S \<longrightarrow> links_null s1 (merge_step S n p)"
        by blast
      note al = merge_step_aligned [OF "1.prems"(2) n "1.prems"(5)]
      note dj = merge_step_disjoint [OF "1.prems"(2,3) n "1.prems"(5) b]
      have in1: "first_buddy n p \<in> merge_step S n p (Suc n)"
        by (simp add: merge_step_mem)
      have sn: "Suc n \<le> 16" using n by simp
      have eq: "iterative_merge s (int n) (Some p) =
                iterative_merge s1 (int (Suc n)) (Some (first_buddy n p))"
        unfolding unf r by simp
      from "1.IH" [OF conjI [OF n b] fs1 al dj sn in1] show ?thesis
        unfolding eq am using ln1 by blast
    qed
  qed
qed

section \<open>Freeing on free sets\<close>

lemma covered_fresh:
  assumes "pages n p \<inter> covered S = {}" and "m \<le> 16"
  shows "p \<notin> S m"
proof
  assume "p \<in> S m"
  then have "unat p \<in> covered S"
    using assms(2) unat_in_pages [of p m] by (auto simp add: covered_def)
  then show False
    using assms(1) unat_in_pages [of p n] by auto
qed

lemma insert_invariants:
  assumes al: "blocks_aligned S" and dj: "blocks_disjoint S" and n: "n \<le> 16"
    and alp: "block_aligned (int n) p" and fresh: "pages n p \<inter> covered S = {}"
  shows "blocks_aligned (S(n := insert p (S n)))"
    and "blocks_disjoint (S(n := insert p (S n)))"
    and "covered (S(n := insert p (S n))) = covered S \<union> pages n p"
proof -
  let ?S = "S(n := insert p (S n))"
  have mem: "\<And>k x. x \<in> ?S k \<longleftrightarrow> (k = n \<and> x = p) \<or> x \<in> S k"
    by auto
  show "blocks_aligned ?S"
    using al alp unfolding blocks_aligned_def mem by auto
  have old: "pages k x \<inter> pages n p = {}" if "k \<le> 16" "x \<in> S k" for k x
  proof -
    have "pages k x \<subseteq> covered S"
      using that by (auto simp add: covered_def)
    then show ?thesis
      using fresh by auto
  qed
  show "blocks_disjoint ?S"
    unfolding blocks_disjoint_def
  proof (intro allI impI ballI)
    fix k m x y
    assume k: "k \<le> 16" and m: "m \<le> 16" and x: "x \<in> ?S k" and y: "y \<in> ?S m"
      and ne: "(k, x) \<noteq> (m, y)"
    consider (new_new) "k = n" "x = p" "m = n" "y = p"
      | (new_old) "k = n" "x = p" "y \<in> S m"
      | (old_new) "m = n" "y = p" "x \<in> S k"
      | (old_old) "x \<in> S k" "y \<in> S m"
      using x y unfolding mem by blast
    then show "pages k x \<inter> pages m y = {}"
    proof cases
      case new_new
      then show ?thesis using ne by simp
    next
      case new_old
      then show ?thesis using old [of m y] m by blast
    next
      case old_new
      then show ?thesis using old [of k x] k by blast
    next
      case old_old
      then show ?thesis
        using dj k m ne unfolding blocks_disjoint_def by blast
    qed
  qed
  show "covered ?S = covered S \<union> pages n p"
  proof (intro set_eqI iffI)
    fix i assume "i \<in> covered ?S"
    then obtain k x where "k \<le> 16" "x \<in> ?S k" "i \<in> pages k x"
      by (auto simp add: covered_def)
    then show "i \<in> covered S \<union> pages n p"
      unfolding mem by (auto simp add: covered_def)
  next
    fix i assume "i \<in> covered S \<union> pages n p"
    then show "i \<in> covered ?S"
    proof
      assume "i \<in> covered S"
      then obtain k x where "k \<le> 16" "x \<in> S k" "i \<in> pages k x"
        by (auto simp add: covered_def)
      moreover from this have "x \<in> ?S k"
        unfolding mem by simp
      ultimately show ?thesis
        unfolding covered_def by blast
    next
      assume "i \<in> pages n p"
      moreover have "p \<in> ?S n"
        by simp
      ultimately show ?thesis
        using n unfolding covered_def by blast
    qed
  qed
qed

lemma a_free_invariants:
  assumes al: "blocks_aligned S" and dj: "blocks_disjoint S" and n: "n \<le> 16"
    and alp: "block_aligned (int n) p" and fresh: "pages n p \<inter> covered S = {}"
  shows "blocks_aligned (a_free S n p)" and "blocks_disjoint (a_free S n p)"
    and "covered (a_free S n p) = covered S \<union> pages n p"
    and "no_free_buddies S \<Longrightarrow> no_free_buddies (a_free S n p)"
proof -
  note ins = insert_invariants [OF assms]
  have p: "p \<in> (S(n := insert p (S n))) n"
    by simp
  note am = a_merge_invariants [OF ins(1,2) n p]
  show "blocks_aligned (a_free S n p)"
    unfolding a_free_def using am by blast
  show "blocks_disjoint (a_free S n p)"
    unfolding a_free_def using am by blast
  have "covered (a_free S n p) = covered (S(n := insert p (S n)))"
    unfolding a_free_def using am by blast
  then show "covered (a_free S n p) = covered S \<union> pages n p"
    by (simp only: ins(3))
  show "no_free_buddies (a_free S n p)" if "no_free_buddies S"
    unfolding a_free_def using insert_except [OF that] p by (rule a_merge_no_free_buddies)
qed

lemma free_pages_sets:
  assumes fs: "free_sets s S" and al: "blocks_aligned S" and dj: "blocks_disjoint S"
    and n: "n \<le> 16" and alp: "block_aligned (int n) p"
    and fresh: "pages n p \<inter> covered S = {}"
  shows "(\<exists>s'. free_pages s p (int n) = Inr s' \<and> free_sets s' (a_free S n p)
            \<and> (links_null s S \<longrightarrow> links_null s' (a_free S n p)))
       \<or> (\<exists>e. free_pages s p (int n) = Inl e \<and> e \<noteq> Nontermination) \<and> \<not> links_null s S"
proof -
  let ?S = "S(n := insert p (S n))"
  have sd: "sets_disjoint S"
    using dj by (rule blocks_disjoint_sets)
  have fr: "\<forall>m\<le>16. p \<notin> S m"
    using fresh by (auto dest: covered_fresh)
  from insert_free_block_sets [OF fs sd n alp fr] obtain s1
    where r1: "insert_free_block s (int n) p = Inr s1" and fs1: "free_sets s1 ?S"
      and ln1: "links_null s S \<longrightarrow> links_null s1 ?S"
    by blast
  note ins = insert_invariants [OF al dj n alp fresh]
  have p: "p \<in> ?S n"
    by simp
  have eq: "free_pages s p (int n) = iterative_merge s1 (int n) (Some p)"
    using n r1 by (simp add: free_pages_def LastOrder_def)
  from iterative_merge_sets [OF fs1 ins(1,2) n p] show ?thesis
    unfolding eq a_free_def using ln1 by blast
qed

section \<open>Invariants as properties of the state\<close>

lemma free_list_of_unique: "free_list_of s n xs \<Longrightarrow> free_list_of s n ys \<Longrightarrow> xs = ys"
  unfolding free_list_of_def by (fact is_list_unique)

lemma free_set_list:
  assumes l: "free_list_of s n xs"
  shows "free_set s n = set xs"
proof (intro set_eqI iffI)
  fix p assume "p \<in> free_set s n"
  then obtain ys where ys: "free_list_of s n ys" and p: "p \<in> set ys"
    unfolding free_set_def by blast
  from ys l have "ys = xs"
    by (rule free_list_of_unique)
  with p show "p \<in> set xs"
    by simp
next
  fix p assume "p \<in> set xs"
  with l show "p \<in> free_set s n"
    unfolding free_set_def by blast
qed

lemma free_set_eq:
  assumes "free_sets s S" and "n \<le> 16"
  shows "free_set s n = S n"
proof -
  have "free_list_of s n (sorted_list_of_set (S n))"
    using assms by (simp add: free_sets_def)
  then have "free_set s n = set (sorted_list_of_set (S n))"
    by (rule free_set_list)
  then show ?thesis
    by simp
qed

lemma free_sets_well_formed: "free_sets s S \<Longrightarrow> well_formed s"
  unfolding well_formed_def free_sets_def
  using strict_sorted_list_of_set by blast

lemma well_formed_free_sets:
  assumes "well_formed s"
  shows "free_sets s (free_set s)"
  unfolding free_sets_def
proof (intro allI impI)
  fix n :: nat assume "n \<le> 16"
  then obtain xs where l: "free_list_of s n xs" and s: "sorted_wrt (<) xs"
    using assms unfolding well_formed_def by blast
  have e: "free_set s n = set xs"
    using l by (rule free_set_list)
  have "sorted_list_of_set (set xs) = xs"
    using s by (rule slos_eqI) (rule refl)
  then show "free_list_of s n (sorted_list_of_set (free_set s n))"
    unfolding e using l by (simp only:)
qed

lemma blocks_aligned_cong:
  "(\<And>n. n \<le> 16 \<Longrightarrow> S n = T n) \<Longrightarrow> blocks_aligned S = blocks_aligned T"
  by (simp add: blocks_aligned_def)

lemma blocks_disjoint_cong:
  "(\<And>n. n \<le> 16 \<Longrightarrow> S n = T n) \<Longrightarrow> blocks_disjoint S = blocks_disjoint T"
  by (simp add: blocks_disjoint_def)

lemma no_free_buddies_cong:
  "(\<And>n. n \<le> 16 \<Longrightarrow> S n = T n) \<Longrightarrow> no_free_buddies S = no_free_buddies T"
  by (simp add: no_free_buddies_def)

lemma covered_cong:
  "(\<And>n. n \<le> 16 \<Longrightarrow> S n = T n) \<Longrightarrow> covered S = covered T"
  by (simp add: covered_def)

lemma links_null_cong:
  "(\<And>n. n \<le> 16 \<Longrightarrow> S n = T n) \<Longrightarrow> links_null s S = links_null s T"
  by (simp add: links_null_def)

section \<open>The merge test\<close>

lemma state_invariants:
  assumes "free_sets s S"
  shows "well_formed s"
    and "blocks_aligned (free_set s) = blocks_aligned S"
    and "blocks_disjoint (free_set s) = blocks_disjoint S"
    and "no_free_buddies (free_set s) = no_free_buddies S"
    and "covered (free_set s) = covered S"
    and "links_null s (free_set s) = links_null s S"
proof -
  show "well_formed s"
    using assms by (rule free_sets_well_formed)
  have e: "\<And>n. n \<le> 16 \<Longrightarrow> free_set s n = S n"
    using assms by (rule free_set_eq)
  show "blocks_aligned (free_set s) = blocks_aligned S"
    using e by (rule blocks_aligned_cong)
  show "blocks_disjoint (free_set s) = blocks_disjoint S"
    using e by (rule blocks_disjoint_cong)
  show "no_free_buddies (free_set s) = no_free_buddies S"
    using e by (rule no_free_buddies_cong)
  show "covered (free_set s) = covered S"
    using e by (rule covered_cong)
  show "links_null s (free_set s) = links_null s S"
    using e by (rule links_null_cong)
qed

lemma get_buddy_neq: "n < 64 \<Longrightarrow> get_buddy (int n) p \<noteq> p"
  by (simp add: get_buddy_eq)

lemma one_page_allocator_sets:
  "free_sets one_page_allocator ((\<lambda>n. {})(0 := {0}))"
  by (simp add: free_sets_def free_list_of_def one_page_allocator_def
      zero_memory_allocator_def page_allocator_buddy_def)

lemma one_page_allocator_invariants:
  "blocks_aligned ((\<lambda>n. {})(0 := {0 :: u64}))"
  "blocks_disjoint ((\<lambda>n. {})(0 := {0 :: u64}))"
  "no_free_buddies ((\<lambda>n. {})(0 := {0 :: u64}))"
  "links_null one_page_allocator ((\<lambda>n. {})(0 := {0}))"
  "covered ((\<lambda>n. {})(0 := {0 :: u64})) = {0}"
  by (auto simp add: blocks_aligned_def blocks_disjoint_def no_free_buddies_def links_null_def
      covered_def pages_def block_aligned_def pages_per_block_def get_buddy_def
      one_page_allocator_def zero_memory_allocator_def page_allocator_buddy_def
      split: if_splits)

text \<open>
  Memory without stale links.  Let every list end and be strictly ascending, the listed
  blocks be aligned and pairwise disjoint, and every frame that is not listed hold a
  null link, and let \<open>free_pages\<close> be called for an aligned block \<open>p\<close> of an order
  in range that is not free.  The block is inserted; below \<open>LastOrder\<close> the pointer test
  \<open>first.next_free == &second\<close> then holds exactly when the buddy is free at this order,
  the merge is carried out in that case and only in that case, and at \<open>LastOrder\<close>
  \<open>free_pages\<close> returns right after the insertion.
\<close>

lemma merge_decided_by_pointer_test:
  assumes wf: "well_formed s" and al: "blocks_aligned (free_set s)"
    and dj: "blocks_disjoint (free_set s)" and ln: "links_null s (free_set s)"
    and o: "0 \<le> order" "order \<le> LastOrder" and alp: "block_aligned order p"
    and fresh: "pages (nat order) p \<inter> covered (free_set s) = {}"
  shows "\<exists>s1. insert_free_block s order p = Inr s1
          \<and> (order < LastOrder \<longrightarrow>
               ((next_free s1 (first_buddy (nat order) p) = Some (second_buddy (nat order) p))
                  \<longleftrightarrow> get_buddy order p \<in> free_set s (nat order))
               \<and> (get_buddy order p \<in> free_set s (nat order) \<longrightarrow>
                    (\<exists>s2. merge_buddies s1 order p = Inr (Some (first_buddy (nat order) p), s2)
                       \<and> free_set s2 (nat order) = free_set s (nat order) - {get_buddy order p}
                       \<and> free_set s2 (Suc (nat order)) =
                           insert (first_buddy (nat order) p) (free_set s (Suc (nat order)))))
               \<and> (get_buddy order p \<notin> free_set s (nat order) \<longrightarrow>
                    merge_buddies s1 order p = Inr (None, s1)))
          \<and> (order = LastOrder \<longrightarrow> free_pages s p order = Inr s1)"
proof -
  define n where "n = nat order"
  define S where "S = free_set s"
  let ?S1 = "S(n := insert p (S n))"
  let ?b = "get_buddy (int n) p"
  have order: "order = int n" and n: "n \<le> 16"
    using o by (simp_all add: n_def LastOrder_def)
  have fs: "free_sets s S"
    unfolding S_def using wf by (rule well_formed_free_sets)
  have sd: "sets_disjoint S"
    using dj unfolding S_def by (rule blocks_disjoint_sets)
  have alp': "block_aligned (int n) p"
    using alp order by simp
  have fresh': "pages n p \<inter> covered S = {}"
    using fresh by (simp add: n_def S_def)
  have fr: "\<forall>m\<le>16. p \<notin> S m"
    using fresh' by (auto dest: covered_fresh)
  from insert_free_block_sets [OF fs sd n alp' fr] obtain s1
    where r1: "insert_free_block s (int n) p = Inr s1" and fs1: "free_sets s1 ?S1"
      and ln1: "links_null s1 ?S1"
    using ln unfolding S_def by blast
  note ins = insert_invariants [OF al [folded S_def] dj [folded S_def] n alp' fresh']
  have p: "p \<in> ?S1 n"
    by simp
  have bmem: "?b \<in> ?S1 n \<longleftrightarrow> ?b \<in> S n"
    using n get_buddy_neq [of n p] by simp
  have low: "(next_free s1 (first_buddy n p) = Some (second_buddy n p) \<longleftrightarrow> ?b \<in> S n)
      \<and> (?b \<in> S n \<longrightarrow>
            (\<exists>s2. merge_buddies s1 (int n) p = Inr (Some (first_buddy n p), s2)
               \<and> free_set s2 n = S n - {?b}
               \<and> free_set s2 (Suc n) = insert (first_buddy n p) (S (Suc n))))
      \<and> (?b \<notin> S n \<longrightarrow> merge_buddies s1 (int n) p = Inr (None, s1))"
    if n16: "n < 16"
  proof (cases "?b \<in> S n")
    case True
    then have b1: "?b \<in> ?S1 n"
      using bmem by simp
    from merge_buddies_merge [OF fs1 ins(1,2) n16 p b1] obtain s2
      where r2: "merge_buddies s1 (int n) p = Inr (Some (first_buddy n p), s2)"
        and fs2: "free_sets s2 (merge_step ?S1 n p)"
        and test: "next_free s1 (first_buddy n p) = Some (second_buddy n p)"
      by blast
    have "free_set s2 n = merge_step ?S1 n p n"
      using fs2 n by (rule free_set_eq)
    also have "\<dots> = S n - {?b}"
      using fr n by (auto simp add: merge_step_def)
    finally have 1: "free_set s2 n = S n - {?b}" .
    have sn: "Suc n \<le> 16"
      using n16 by simp
    have "free_set s2 (Suc n) = merge_step ?S1 n p (Suc n)"
      using fs2 sn by (rule free_set_eq)
    also have "\<dots> = insert (first_buddy n p) (S (Suc n))"
      by (simp add: merge_step_def)
    finally have 2: "free_set s2 (Suc n) = insert (first_buddy n p) (S (Suc n))" .
    show ?thesis
      using True r2 test 1 2 by blast
  next
    case False
    then have b1: "?b \<notin> ?S1 n"
      using bmem by simp
    note nm = merge_buddies_no_merge [OF fs1 ins(1,2) n16 p b1]
    have "merge_buddies s1 (int n) p = Inr (None, s1)"
      using nm(1) ln1 by blast
    moreover have "next_free s1 (first_buddy n p) \<noteq> Some (second_buddy n p)"
      using ln1 by (rule nm(2))
    ultimately show ?thesis
      using False by blast
  qed
  have top: "free_pages s p (int n) = Inr s1" if "n = 16"
    using that r1 by (simp add: free_pages_def LastOrder_def iterative_merge.simps [of s1 16])
  have "order < LastOrder \<longleftrightarrow> n < 16" "order = LastOrder \<longleftrightarrow> n = 16"
    using order by (simp_all add: LastOrder_def)
  then show ?thesis
    using r1 low top unfolding order S_def [symmetric] by (simp add: n_def [symmetric]) 
qed

lemma merge_decided_by_pointer_test_witness:
  "\<exists>s1 s2. insert_free_block one_page_allocator 0 1 = Inr s1
          \<and> next_free s1 0 = Some 1
          \<and> merge_buddies s1 0 1 = Inr (Some 0, s2)
          \<and> free_set s2 0 = {} \<and> free_set s2 1 = {0}"
proof -
  note inv = state_invariants [OF one_page_allocator_sets]
  note S = one_page_allocator_invariants
  have e: "free_set one_page_allocator 0 = {0}" "free_set one_page_allocator (Suc 0) = {}"
    using free_set_eq [OF one_page_allocator_sets] by simp_all
  have b: "get_buddy 0 1 = 0" "first_buddy 0 1 = 0" "second_buddy 0 1 = 1"
    by (simp_all add: first_buddy_def second_buddy_def get_buddy_def pages_per_block_def)
  have h: "well_formed one_page_allocator" "blocks_aligned (free_set one_page_allocator)"
    "blocks_disjoint (free_set one_page_allocator)"
    "links_null one_page_allocator (free_set one_page_allocator)"
    "(0::int) \<le> 0" "0 \<le> LastOrder" "block_aligned 0 1"
    "pages (nat 0) 1 \<inter> covered (free_set one_page_allocator) = {}"
    using inv S
    by (simp_all add: LastOrder_def block_aligned_def pages_per_block_def pages_def)
  show ?thesis
    using merge_decided_by_pointer_test [OF h] e b
    by (simp add: LastOrder_def)
qed

section \<open>Splitting on free sets\<close>

lemma slos_Min:
  fixes A :: "'a::linorder set"
  assumes "finite A" and "A \<noteq> {}"
  shows "\<exists>post. sorted_list_of_set A = Min A # post"
proof -
  obtain x xs where xs: "sorted_list_of_set A = x # xs"
    using assms by (cases "sorted_list_of_set A") auto
  have s: "sorted (x # xs)" and A: "set (x # xs) = A"
    using xs [symmetric] assms(1) by simp_all
  have "Min A = x"
  proof (rule Min_eqI)
    show "finite A" by fact
    show "x \<in> A" using A by auto
    show "\<And>y. y \<in> A \<Longrightarrow> x \<le> y"
      using s A by auto
  qed
  then show ?thesis
    using xs by simp
qed

lemma free_sets_head:
  assumes "free_sets s S" and "n \<le> 16"
  shows "free_list s n = (if S n = {} then None else Some (Min (S n)))"
proof -
  have l: "is_list (next_free s) (free_list s n) (sorted_list_of_set (S n))"
    using assms by (simp add: free_sets_def free_list_of_def)
  show ?thesis
  proof (cases "S n = {}")
    case True
    then show ?thesis using l by simp
  next
    case False
    then obtain post where "sorted_list_of_set (S n) = Min (S n) # post"
      using slos_Min [of "S n"] by auto
    then show ?thesis
      using l False by simp
  qed
qed

lemma half_block:
  assumes k: "0 < k" "k \<le> 16" and al: "block_aligned (int k) b"
  shows "unat (b + 2 ^ (k - 1)) = unat b + 2 ^ (k - 1)"
    and "b < b + 2 ^ (k - 1)"
    and "block_aligned (int (k - 1)) b"
    and "block_aligned (int (k - 1)) (b + 2 ^ (k - 1))"
    and "pages k b = pages (k - 1) b \<union> pages (k - 1) (b + 2 ^ (k - 1))"
proof -
  have d: "2 ^ k dvd unat b"
    using al k by (simp add: block_aligned_iff)
  show u: "unat (b + 2 ^ (k - 1)) = unat b + 2 ^ (k - 1)"
    using d k by (intro unat_add_2p [where k = k]) simp_all
  then show "b < b + 2 ^ (k - 1)"
    by (simp add: word_less_nat_alt)
  have "(2::nat) ^ (k - 1) dvd 2 ^ k"
    by (rule le_imp_power_dvd) simp
  then have d1: "2 ^ (k - 1) dvd unat b"
    using d by (rule dvd_trans)
  have k1: "k - 1 < 64"
    using k by simp
  show "block_aligned (int (k - 1)) b"
    using d1 by (simp only: block_aligned_iff [OF k1])
  have "2 ^ (k - 1) dvd unat (b + 2 ^ (k - 1))"
    unfolding u using d1 by simp
  then show "block_aligned (int (k - 1)) (b + 2 ^ (k - 1))"
    by (simp only: block_aligned_iff [OF k1])
  have "Suc (k - 1) = k"
    using k by simp
  then show "pages k b = pages (k - 1) b \<union> pages (k - 1) (b + 2 ^ (k - 1))"
    using pages_merge [OF u] by simp
qed

lemma split_step_mem:
  "0 < k \<Longrightarrow> x \<in> split_step S k b j \<longleftrightarrow>
     (j = k - 1 \<and> (x = b \<or> x = b + 2 ^ (k - 1))) \<or>
     (j \<noteq> k - 1 \<and> x \<in> S j \<and> \<not> (j = k \<and> x = b))"
  by (auto simp add: split_step_def)

lemma split_step_invariants:
  assumes al: "blocks_aligned S" and dj: "blocks_disjoint S" and k: "0 < k" "k \<le> 16"
    and b: "b \<in> S k" and e: "S (k - 1) = {}"
  shows "blocks_aligned (split_step S k b)" and "blocks_disjoint (split_step S k b)"
    and "covered (split_step S k b) = covered S"
proof -
  let ?c = "b + 2 ^ (k - 1)"
  have alb: "block_aligned (int k) b"
    using al k b by (simp add: blocks_aligned_def)
  note hb = half_block [OF k alb]
  have k1: "k - 1 \<le> 16" using k by simp
  show "blocks_aligned (split_step S k b)"
    unfolding blocks_aligned_def
  proof (intro allI impI ballI)
    fix j x assume "j \<le> 16" "x \<in> split_step S k b j"
    then show "block_aligned (int j) x"
      using al hb(3,4) unfolding split_step_mem [OF k(1)] by (auto simp add: blocks_aligned_def)
  qed
  have old: "pages j z \<inter> pages k b = {}"
    if "j \<le> 16" "z \<in> S j" "\<not> (j = k \<and> z = b)" for j z
    using dj that b k unfolding blocks_disjoint_def by blast
  have halves: "pages (k - 1) b \<inter> pages (k - 1) ?c = {}"
    using hb(1) by (auto simp add: pages_def)
  show "blocks_disjoint (split_step S k b)"
    unfolding blocks_disjoint_def
  proof (intro allI impI ballI)
    fix j m x y
    assume j: "j \<le> 16" and m: "m \<le> 16" and x: "x \<in> split_step S k b j"
      and y: "y \<in> split_step S k b m" and ne: "(j, x) \<noteq> (m, y)"
    have no: "pages (k - 1) x' \<inter> pages m' y' = {}"
      if "x' = b \<or> x' = ?c" "m' \<le> 16" "y' \<in> S m'" "\<not> (m' = k \<and> y' = b)" for x' m' y'
    proof -
      have "pages (k - 1) x' \<subseteq> pages k b"
        using that(1) hb(5) by auto
      then show ?thesis
        using old [OF that(2,3,4)] by blast
    qed
    consider (new_new) "j = k - 1" "m = k - 1" "x = b \<or> x = ?c" "y = b \<or> y = ?c"
      | (new_old) "j = k - 1" "x = b \<or> x = ?c" "y \<in> S m" "\<not> (m = k \<and> y = b)"
      | (old_new) "m = k - 1" "y = b \<or> y = ?c" "x \<in> S j" "\<not> (j = k \<and> x = b)"
      | (old_old) "x \<in> S j" "y \<in> S m"
      using x y unfolding split_step_mem [OF k(1)] by blast
    then show "pages j x \<inter> pages m y = {}"
    proof cases
      case new_new
      then show ?thesis using ne halves by auto
    next
      case new_old
      then show ?thesis using no [of x m y] m by simp
    next
      case old_new
      then show ?thesis using no [of y j x] j by (simp add: Int_commute)
    next
      case old_old
      then show ?thesis
        using dj j m ne unfolding blocks_disjoint_def by blast
    qed
  qed
  show "covered (split_step S k b) = covered S"
  proof (intro set_eqI iffI)
    fix i assume "i \<in> covered (split_step S k b)"
    then obtain j x where j: "j \<le> 16" and x: "x \<in> split_step S k b j" and i: "i \<in> pages j x"
      by (auto simp add: covered_def)
    from x show "i \<in> covered S"
      unfolding split_step_mem [OF k(1)]
    proof
      assume "j = k - 1 \<and> (x = b \<or> x = ?c)"
      then have "i \<in> pages k b"
        using i hb(5) by auto
      then show ?thesis
        using b k by (auto simp add: covered_def)
    next
      assume "j \<noteq> k - 1 \<and> x \<in> S j \<and> \<not> (j = k \<and> x = b)"
      then show ?thesis
        using i j by (auto simp add: covered_def)
    qed
  next
    fix i assume "i \<in> covered S"
    then obtain j x where j: "j \<le> 16" and x: "x \<in> S j" and i: "i \<in> pages j x"
      by (auto simp add: covered_def)
    show "i \<in> covered (split_step S k b)"
    proof (cases "j = k \<and> x = b")
      case True
      then have "i \<in> pages (k - 1) b \<or> i \<in> pages (k - 1) ?c"
        using i hb(5) by auto
      moreover have "b \<in> split_step S k b (k - 1)" "?c \<in> split_step S k b (k - 1)"
        by (simp_all add: split_step_mem [OF k(1)])
      ultimately show ?thesis
        using k1 unfolding covered_def by blast
    next
      case False
      moreover have "j \<noteq> k - 1"
        using x e by auto
      ultimately have "x \<in> split_step S k b j"
        using x by (simp add: split_step_mem [OF k(1)])
      then show ?thesis
        using i j unfolding covered_def by blast
    qed
  qed
qed

lemma split_block_sets:
  assumes fs: "free_sets s S" and al: "blocks_aligned S" and dj: "blocks_disjoint S"
    and k: "0 < k" "k \<le> 16" and b: "b \<in> S k" and e: "S (k - 1) = {}"
  shows "\<exists>s'. split_block s (int k) b = Inr s' \<and> free_sets s' (split_step S k b)
          \<and> (links_null s S \<longrightarrow> links_null s' (split_step S k b))"
proof -
  let ?c = "b + 2 ^ (k - 1)"
  let ?S1 = "S(k := S k - {b})"
  have alb: "block_aligned (int k) b"
    using al k b by (simp add: blocks_aligned_def)
  note hb = half_block [OF k alb]
  have sd: "sets_disjoint S"
    using dj by (rule blocks_disjoint_sets)
  have k1: "k - 1 \<le> 16" using k by simp
  from remove_free_block_sets [OF fs sd k(2) alb b] obtain s1
    where r1: "remove_free_block s (int k) b = Inr s1" and fs1: "free_sets s1 ?S1"
      and ln1: "links_null s S \<longrightarrow> links_null s1 ?S1"
    by blast
  have sd1: "sets_disjoint ?S1"
    using sd unfolding sets_disjoint_def by (auto split: if_splits)
  have "k - 1 \<noteq> k"
    using k by arith
  then have e1: "?S1 (k - 1) = {}"
    using e by simp
  have fresh: "\<forall>m\<le>16. b \<notin> ?S1 m \<and> ?c \<notin> ?S1 m"
  proof (intro allI impI conjI)
    fix m :: nat assume m: "m \<le> 16"
    show "b \<notin> ?S1 m"
    proof (cases "m = k")
      case True
      then show ?thesis by simp
    next
      case False
      then have "S k \<inter> S m = {}"
        using sd k m by (simp add: sets_disjoint_def)
      then show ?thesis
        using b False by auto
    qed
    show "?c \<notin> ?S1 m"
    proof
      assume "?c \<in> ?S1 m"
      then have c: "?c \<in> S m" and "(m, ?c) \<noteq> (k, b)"
        using hb(2) by (auto split: if_splits)
      then have "pages m ?c \<inter> pages k b = {}"
        using dj m k b unfolding blocks_disjoint_def by blast
      moreover have "unat ?c \<in> pages m ?c"
        by (rule unat_in_pages)
      moreover have "unat ?c \<in> pages k b"
        unfolding hb(5) using unat_in_pages [of ?c "k - 1"] by simp
      ultimately show False
        by blast
    qed
  qed
  from insert_buddies_sets [OF fs1 sd1 k1 hb(3) hb(4) e1 hb(2) fresh] obtain s2
    where r2: "insert_buddies s1 (int (k - 1)) b ?c = Inr s2"
      and fs2: "free_sets s2 (?S1(k - 1 := {b, ?c}))"
      and ln2: "links_null s1 ?S1 \<longrightarrow> links_null s2 (?S1(k - 1 := {b, ?c}))"
    by blast
  have i: "int k - 1 = int (k - 1)"
    using k by simp
  have "pages_per_block (int (k - 1)) = 2 ^ (k - 1)"
    by (simp add: pages_per_block_def)
  then have "split_block s (int k) b = Inr s2"
    using k r1 r2 unfolding split_block_def i by (simp add: LastOrder_def Let_def)
  then show ?thesis
    using fs2 ln1 ln2 unfolding split_step_def by blast
qed

section \<open>Allocation on free sets\<close>

lemma split_result_step:
  assumes "t < k" and "k \<le> 16"
  shows "(if k - 1 = t then split_step S k b else split_result (split_step S k b) (k - 1) t b)
         = split_result S k t b"
proof (rule ext)
  fix j
  have "(2 :: u64) ^ (k - 1) \<noteq> 0"
    using assms(2) by simp
  then have c: "b + 2 ^ (k - 1) \<noteq> b"
    by simp
  have k: "k - 1 \<noteq> k" "0 < k"
    using assms by arith+
  show "(if k - 1 = t then split_step S k b else split_result (split_step S k b) (k - 1) t b) j
         = split_result S k t b j"
  proof (cases "k - 1 = t")
    case True
    then have "t \<noteq> k" "\<not> (t < j \<and> j < k)"
      using k by arith+
    then show ?thesis
      using True by (auto simp add: split_result_def split_step_def)
  next
    case False
    then have t: "t < k - 1"
      using assms by arith
    have *: "split_result (split_step S k b) (k - 1) t b j = split_result S k t b j"
    proof (cases "j = k")
      case True
      then show ?thesis
        using t k by (auto simp add: split_result_def split_step_def)
    next
      case jk: False
      show ?thesis
      proof (cases "j = k - 1")
        case True
        then show ?thesis
          using t k c jk by (auto simp add: split_result_def split_step_def)
      next
        case False
        then have "t < j \<and> j < k - 1 \<longleftrightarrow> t < j \<and> j < k"
          using jk by arith
        then show ?thesis
          using False jk k by (auto simp add: split_result_def split_step_def)
      qed
    qed
    show ?thesis
      using False * by simp
  qed
qed

lemma split_down_unfold:
  assumes "t < k" and "free_list s k = Some b"
  shows "split_down s (int k) (int t) =
     (case split_block s (int k) b of Inl e \<Rightarrow> Inl e
      | Inr s1 \<Rightarrow> split_down s1 (int (k - 1)) (int t))"
proof -
  have i: "int k - 1 = int (k - 1)"
    using assms by simp
  have "split_down s (int k) (int t) =
     (case split_block s (int k) b of Inl e \<Rightarrow> Inl e
      | Inr s1 \<Rightarrow> split_down s1 (int k - 1) (int t))"
    using assms by (subst split_down.simps) simp
  then show ?thesis
    unfolding i .
qed

lemma split_down_sets:
  assumes "free_sets s S" and "blocks_aligned S" and "blocks_disjoint S"
    and "t \<le> k" and "k \<le> 16" and "\<forall>j. t \<le> j \<and> j < k \<longrightarrow> S j = {}" and "S k \<noteq> {}"
  shows "\<exists>s' S'. split_down s (int k) (int t) = Inr (Some (Min (S k)), s')
          \<and> S' = (if k = t then S else split_result S k t (Min (S k)))
          \<and> free_sets s' S' \<and> (links_null s S \<longrightarrow> links_null s' S')
          \<and> blocks_aligned S' \<and> blocks_disjoint S' \<and> covered S' = covered S"
  using assms
proof (induction "k - t" arbitrary: k s S)
  case 0
  then have kt: "k = t" by simp
  have "free_list s k = Some (Min (S k))"
    using free_sets_head [OF "0.prems"(1,5)] "0.prems"(7) by simp
  then have "split_down s (int k) (int t) = Inr (Some (Min (S k)), s)"
    using kt by (subst split_down.simps) simp
  then show ?case
    using "0.prems" kt by simp
next
  case (Suc d)
  let ?b = "Min (S k)"
  let ?c = "?b + 2 ^ (k - 1)"
  let ?S1 = "split_step S k ?b"
  have tk: "t < k" and k0: "0 < k" and k1: "k - 1 \<le> 16" and t1: "t \<le> k - 1"
    using Suc.hyps(2) Suc.prems(5) by simp_all
  have b: "?b \<in> S k"
    using Suc.prems(7) by (intro Min_in) simp_all
  have h: "free_list s k = Some ?b"
    using free_sets_head [OF Suc.prems(1,5)] Suc.prems(7) by simp
  have e: "S (k - 1) = {}"
    using Suc.prems(6) tk by simp
  from split_block_sets [OF Suc.prems(1,2,3) k0 Suc.prems(5) b e] obtain s1
    where r1: "split_block s (int k) ?b = Inr s1" and fs1: "free_sets s1 ?S1"
      and ln1: "links_null s S \<longrightarrow> links_null s1 ?S1"
    by blast
  note inv1 = split_step_invariants [OF Suc.prems(2,3) k0 Suc.prems(5) b e]
  have alb: "block_aligned (int k) ?b"
    using Suc.prems(2,5) b by (simp add: blocks_aligned_def)
  note hb = half_block [OF k0 Suc.prems(5) alb]
  have top: "?S1 (k - 1) = {?b, ?c}"
    by (simp add: split_step_def)
  have m: "Min (?S1 (k - 1)) = ?b"
    unfolding top using hb(2) by (simp add: min_def)
  have ne: "?S1 (k - 1) \<noteq> {}"
    unfolding top by simp
  have em: "\<forall>j. t \<le> j \<and> j < k - 1 \<longrightarrow> ?S1 j = {}"
    using Suc.prems(6) by (auto simp add: split_step_def)
  have d: "d = k - 1 - t"
    using Suc.hyps(2) by simp
  from Suc.hyps(1) [OF d fs1 inv1(1,2) t1 k1 em ne] obtain s' S'
    where r2: "split_down s1 (int (k - 1)) (int t) = Inr (Some ?b, s')"
      and S': "S' = (if k - 1 = t then ?S1 else split_result ?S1 (k - 1) t ?b)"
      and fs': "free_sets s' S'" and ln': "links_null s1 ?S1 \<longrightarrow> links_null s' S'"
      and inv': "blocks_aligned S'" "blocks_disjoint S'" "covered S' = covered ?S1"
    unfolding m by blast
  have "split_down s (int k) (int t) = Inr (Some ?b, s')"
    unfolding split_down_unfold [OF tk h] r1 using r2 by simp
  moreover have "S' = (if k = t then S else split_result S k t ?b)"
    unfolding S' split_result_step [OF tk Suc.prems(5)] using tk by simp
  ultimately show ?case
    using fs' ln1 ln' inv' inv1(3) by auto
qed

lemma remove_invariants:
  assumes al: "blocks_aligned S" and dj: "blocks_disjoint S" and n: "n \<le> 16" and b: "b \<in> S n"
  shows "blocks_aligned (S(n := S n - {b}))" and "blocks_disjoint (S(n := S n - {b}))"
    and "covered (S(n := S n - {b})) = covered S - pages n b" and "pages n b \<subseteq> covered S"
proof -
  let ?S = "S(n := S n - {b})"
  have mem: "\<And>k x. x \<in> ?S k \<longleftrightarrow> x \<in> S k \<and> \<not> (k = n \<and> x = b)"
    by auto
  show "blocks_aligned ?S"
    unfolding blocks_aligned_def
  proof (intro allI impI ballI)
    fix k x assume "k \<le> 16" "x \<in> ?S k"
    then have "k \<le> 16" "x \<in> S k"
      unfolding mem by simp_all
    then show "block_aligned (int k) x"
      using al by (simp add: blocks_aligned_def)
  qed
  show "blocks_disjoint ?S"
    unfolding blocks_disjoint_def
  proof (intro allI impI ballI)
    fix k m x y
    assume "k \<le> 16" "m \<le> 16" "x \<in> ?S k" "y \<in> ?S m" "(k, x) \<noteq> (m, y)"
    then have "k \<le> 16" "m \<le> 16" "x \<in> S k" "y \<in> S m" "(k, x) \<noteq> (m, y)"
      unfolding mem by simp_all
    then show "pages k x \<inter> pages m y = {}"
      using dj unfolding blocks_disjoint_def by blast
  qed
  show sub: "pages n b \<subseteq> covered S"
    using n b by (auto simp add: covered_def)
  show "covered ?S = covered S - pages n b"
  proof (intro set_eqI iffI)
    fix i assume "i \<in> covered ?S"
    then obtain k x where k: "k \<le> 16" and x0: "x \<in> ?S k" and i: "i \<in> pages k x"
      by (auto simp add: covered_def)
    from x0 have x: "x \<in> S k" "\<not> (k = n \<and> x = b)"
      unfolding mem by simp_all
    have "(k, x) \<noteq> (n, b)"
      using x by auto
    then have "pages k x \<inter> pages n b = {}"
      using dj n b k x(1) unfolding blocks_disjoint_def by blast
    moreover have "i \<in> covered S"
      using i k x(1) by (auto simp add: covered_def)
    ultimately show "i \<in> covered S - pages n b"
      using i by blast
  next
    fix i assume "i \<in> covered S - pages n b"
    then obtain k x where k: "k \<le> 16" and x: "x \<in> S k" and i: "i \<in> pages k x" "i \<notin> pages n b"
      by (auto simp add: covered_def)
    then have "\<not> (k = n \<and> x = b)"
      by auto
    then have "x \<in> ?S k"
      using x unfolding mem by simp
    then show "i \<in> covered ?S"
      using i(1) k unfolding covered_def by blast
  qed
qed

lemma in_block_iff:
  assumes n: "n \<le> 16" and al: "block_aligned (int n) b"
  shows "q - b < push_bit n 1 \<longleftrightarrow> unat q \<in> pages n b"
proof -
  have d: "2 ^ n dvd unat b"
    using al n by (simp add: block_aligned_iff)
  have e: "unat b + 2 ^ n \<le> 2 ^ 64"
    using d n by (intro unat_block_end) simp_all
  have p: "unat (push_bit n 1 :: u64) = 2 ^ n"
    using n by (simp add: unat_2p)
  have q: "unat q < 2 ^ 64"
    using unsigned_less [of q] by simp
  have s: "unat (q - b) = (if unat b \<le> unat q then unat q - unat b
                          else unat q + 2 ^ 64 - unat b)"
    by (simp add: unat_sub_if' word_size)
  show ?thesis
    unfolding word_less_nat_alt p s pages_def using e q by auto
qed

lemma pzero_sets:
  assumes fs: "free_sets s S" and n: "n \<le> 16" and al: "block_aligned (int n) b"
    and fresh: "pages n b \<inter> covered S = {}"
  shows "free_sets (pzero s b (push_bit n 1)) S"
    and "links_null s S \<Longrightarrow> links_null (pzero s b (push_bit n 1)) S"
proof -
  let ?s = "pzero s b (push_bit n 1)"
  have keep: "next_free ?s q = next_free s q" if "m \<le> 16" "q \<in> S m" for m q
  proof -
    have "unat q \<in> covered S"
      using that unat_in_pages [of q m] unfolding covered_def by blast
    then have "unat q \<notin> pages n b"
      using fresh by blast
    then have "\<not> q - b < push_bit n 1"
      using in_block_iff [OF n al] by simp
    then show ?thesis
      by (simp add: pzero_def)
  qed
  show "free_sets ?s S"
    unfolding free_sets_def
  proof (intro allI impI)
    fix m :: nat assume m: "m \<le> 16"
    have "free_list_of s m (sorted_list_of_set (S m))"
      using fs m by (simp add: free_sets_def)
    moreover have "free_list ?s m = free_list s m"
      by (simp add: pzero_def)
    moreover have "\<And>q. q \<in> set (sorted_list_of_set (S m)) \<Longrightarrow> next_free ?s q = next_free s q"
      using keep [OF m] by simp
    ultimately show "free_list_of ?s m (sorted_list_of_set (S m))"
      by (rule free_list_of_frame)
  qed
  show "links_null ?s S" if "links_null s S"
    using that unfolding links_null_def by (simp add: pzero_def)
qed

lemma split_scan_eq:
  assumes "a \<le> k" and "k \<le> LastOrder + 1"
    and "\<forall>j. a \<le> j \<and> j < k \<longrightarrow> free_list s (nat j) = None"
    and "LastOrder < k \<or> free_list s (nat k) \<noteq> None"
  shows "split_scan s a = k"
  using assms
proof (induction s a rule: split_scan.induct)
  case (1 s order)
  show ?case
  proof (cases "order = k")
    case True
    have "\<not> (k \<le> LastOrder \<and> free_list s (nat k) = None)"
      using "1.prems"(4) by auto
    then have "split_scan s k = k"
      by (rule split_scan_stay)
    then show ?thesis
      using True by simp
  next
    case False
    then have lt: "order < k"
      using "1.prems"(1) by simp
    then have e: "free_list s (nat order) = None"
      using "1.prems"(3) by simp
    have le: "order \<le> LastOrder"
      using lt "1.prems"(2) by simp
    then have "split_scan s order = split_scan s (order + 1)"
      using e by (simp add: split_scan_step)
    moreover have "split_scan s (order + 1) = k"
      using le e lt "1.prems"(2,3,4) by (intro "1.IH") simp_all
    ultimately show ?thesis
      by simp
  qed
qed

lemma allocate_pages_sets:
  assumes fs: "free_sets s S" and al: "blocks_aligned S" and dj: "blocks_disjoint S"
    and nk: "n \<le> k" "k \<le> 16" and ne: "S k \<noteq> {}"
    and em: "\<forall>j. n \<le> j \<and> j < k \<longrightarrow> S j = {}"
  shows "\<exists>s'. allocate_pages s (int n) flags = Inr (Some (Min (S k)), s')
          \<and> free_sets s' (alloc_sets S n k)
          \<and> (links_null s S \<longrightarrow> links_null s' (alloc_sets S n k))"
    and "blocks_aligned (alloc_sets S n k)" and "blocks_disjoint (alloc_sets S n k)"
    and "covered (alloc_sets S n k) = covered S - pages n (Min (S k))"
    and "pages n (Min (S k)) \<subseteq> covered S"
    and "block_aligned (int n) (Min (S k))"
proof -
  let ?b = "Min (S k)"
  define S1 where "S1 = (if k = n then S else split_result S k n ?b)"
  have n16: "n \<le> 16" using nk by simp
  have split: "\<exists>s1. iterative_split s (int n) = Inr (Some ?b, s1) \<and> free_sets s1 S1
      \<and> (links_null s S \<longrightarrow> links_null s1 S1)
      \<and> blocks_aligned S1 \<and> blocks_disjoint S1 \<and> covered S1 = covered S"
  proof (cases "k = n")
    case True
    then have "free_list s n = Some ?b"
      using free_sets_head [OF fs n16] ne by simp
    then have "iterative_split s (int n) = Inr (Some ?b, s)"
      using n16 by (simp add: iterative_split_def LastOrder_def)
    then show ?thesis
      using True fs al dj by (simp add: S1_def)
  next
    case False
    then have lt: "n < k" using nk by simp
    have e: "free_list s n = None"
      using free_sets_head [OF fs n16] em lt by simp
    have "\<forall>j. int n + 1 \<le> j \<and> j < int k \<longrightarrow> free_list s (nat j) = None"
    proof (intro allI impI)
      fix j :: int assume j: "int n + 1 \<le> j \<and> j < int k"
      then have "nat j \<le> 16" "n \<le> nat j \<and> nat j < k"
        using nk by auto
      then show "free_list s (nat j) = None"
        using free_sets_head [OF fs, of "nat j"] em by simp
    qed
    moreover have "free_list s (nat (int k)) \<noteq> None"
      using free_sets_head [OF fs nk(2)] ne by simp
    ultimately have sc: "split_scan s (int n + 1) = int k"
      using lt nk by (intro split_scan_eq) (simp_all add: LastOrder_def)
    have "iterative_split s (int n) = split_down s (int k) (int n)"
      using n16 nk e sc by (simp add: iterative_split_def LastOrder_def)
    then show ?thesis
      using split_down_sets [OF fs al dj nk em ne] False by (auto simp add: S1_def)
  qed
  then obtain s1 where r1: "iterative_split s (int n) = Inr (Some ?b, s1)"
    and fs1: "free_sets s1 S1" and ln1: "links_null s S \<longrightarrow> links_null s1 S1"
    and inv1: "blocks_aligned S1" "blocks_disjoint S1" "covered S1 = covered S"
    by blast
  have b1: "?b \<in> S1 n"
  proof (cases "k = n")
    case True
    then show ?thesis
      using ne by (simp add: S1_def)
  next
    case False
    then show ?thesis
      using nk by (simp add: S1_def split_result_def)
  qed
  have eq: "S1(n := S1 n - {?b}) = alloc_sets S n k"
  proof (cases "k = n")
    case True
    then show ?thesis
      by (simp add: S1_def alloc_sets_def)
  next
    case False
    have "(2 :: u64) ^ n \<noteq> 0"
      using n16 by simp
    then have "?b + 2 ^ n \<noteq> ?b"
      by simp
    then have "{?b, ?b + 2 ^ n} - {?b} = {?b + 2 ^ n}"
      by auto
    then show ?thesis
      using False nk by (simp add: S1_def alloc_sets_def split_result_def)
  qed
  show alb: "block_aligned (int n) ?b"
    using inv1(1) b1 n16 by (simp add: blocks_aligned_def)
  note rem = remove_invariants [OF inv1(1,2) n16 b1, unfolded eq inv1(3)]
  show "blocks_aligned (alloc_sets S n k)" and "blocks_disjoint (alloc_sets S n k)"
    and cov: "covered (alloc_sets S n k) = covered S - pages n ?b"
    and "pages n ?b \<subseteq> covered S"
    using rem by simp_all
  have sd1: "sets_disjoint S1"
    using inv1(2) by (rule blocks_disjoint_sets)
  from remove_free_block_sets [OF fs1 sd1 n16 alb b1] obtain s2
    where r2: "remove_free_block s1 (int n) ?b = Inr s2"
      and fs2: "free_sets s2 (alloc_sets S n k)"
      and ln2: "links_null s1 S1 \<longrightarrow> links_null s2 (alloc_sets S n k)"
    unfolding eq by blast
  have fresh: "pages n ?b \<inter> covered (alloc_sets S n k) = {}"
    unfolding cov by blast
  note pz = pzero_sets [OF fs2 n16 alb fresh]
  let ?s' = "if flags AND flag_zero = flag_zero then pzero s2 ?b (push_bit n 1) else s2"
  have "allocate_pages s (int n) flags = Inr (Some ?b, ?s')"
    using n16 r1 r2 by (simp add: allocate_pages_def LastOrder_def)
  moreover have "free_sets ?s' (alloc_sets S n k)"
    using fs2 pz(1) by simp
  moreover have "links_null s S \<longrightarrow> links_null ?s' (alloc_sets S n k)"
    using ln1 ln2 pz(2) by simp
  ultimately show "\<exists>s'. allocate_pages s (int n) flags = Inr (Some ?b, s')
          \<and> free_sets s' (alloc_sets S n k)
          \<and> (links_null s S \<longrightarrow> links_null s' (alloc_sets S n k))"
    by blast
qed

lemma alloc_sets_explicit:
  assumes "n < k" and "k \<le> 16"
  shows "alloc_sets S n k =
     (\<lambda>j. if j = k then S k - {Min (S k)}
          else if n \<le> j \<and> j < k then {Min (S k) + 2 ^ j} else S j)"
  using assms by (auto simp add: alloc_sets_def split_result_def fun_eq_iff)

lemma alloc_sets_no_free_buddies:
  assumes nb: "no_free_buddies S" and nk: "n \<le> k" "k \<le> 16"
    and em: "\<forall>j. n \<le> j \<and> j < k \<longrightarrow> S j = {}"
  shows "no_free_buddies (alloc_sets S n k)"
proof (cases "k = n")
  case True
  then show ?thesis
    using nb by (auto simp add: alloc_sets_def no_free_buddies_def)
next
  case False
  then have lt: "n < k" using nk by simp
  show ?thesis
    unfolding no_free_buddies_def alloc_sets_explicit [OF lt nk(2)]
  proof (intro allI impI ballI)
    fix j q
    assume j: "j < 16"
      and q: "q \<in> (if j = k then S k - {Min (S k)}
                   else if n \<le> j \<and> j < k then {Min (S k) + 2 ^ j} else S j)"
    show "get_buddy (int j) q \<notin> (if j = k then S k - {Min (S k)}
                   else if n \<le> j \<and> j < k then {Min (S k) + 2 ^ j} else S j)"
    proof (cases "n \<le> j \<and> j < k")
      case True
      then show ?thesis
        using q j get_buddy_neq [of j q] by auto
    next
      case False
      then have "q \<in> S j"
        using q by (auto split: if_splits)
      then have "get_buddy (int j) q \<notin> S j"
        using nb j by (simp add: no_free_buddies_def)
      then show ?thesis
        using False by auto
    qed
  qed
qed

section \<open>Allocation followed by freeing\<close>

lemma bit_clear_aligned:
  assumes "2 ^ k dvd unat (b :: u64)" and "n < k"
  shows "\<not> bit b n"
proof -
  from assms(1) obtain m where m: "unat b = 2 ^ k * m" ..
  have "(2::nat) ^ k = 2 ^ n * 2 ^ (k - n)"
    using assms(2) by (simp add: power_add [symmetric])
  then have "unat b = 2 ^ n * (2 ^ (k - n) * m)"
    using m by simp
  then have "unat b div 2 ^ n = 2 ^ (k - n) * m"
    by simp
  moreover have "even ((2::nat) ^ (k - n))"
    using assms(2) by simp
  ultimately show ?thesis
    by (simp add: bit_unat_div)
qed

lemma merge_cascade:
  assumes "n \<le> k" and "k \<le> 16" and "2 ^ k dvd unat b"
    and "\<forall>j. n \<le> j \<and> j < k \<longrightarrow> T j = {b + 2 ^ j}"
  shows "a_merge (T(n := insert b (T n))) n b =
         a_merge ((\<lambda>j. if n \<le> j \<and> j < k then {} else T j)(k := insert b (T k))) k b"
  using assms
proof (induction "k - n" arbitrary: n T)
  case 0
  then have nk: "n = k" by simp
  have e: "(\<lambda>j. if n \<le> j \<and> j < k then {} else T j) = T"
    using nk by (auto simp add: fun_eq_iff)
  show ?case
    unfolding e unfolding nk by (rule refl)
next
  case (Suc d)
  have nk: "n < k" and n16: "n < 16"
    using Suc.hyps(2) Suc.prems(2) by simp_all
  let ?U = "T(n := insert b (T n))"
  let ?T' = "T(n := {})"
  have buddy: "get_buddy (int n) b = b + 2 ^ n"
    using bit_clear_aligned [OF Suc.prems(3) nk] by (simp add: get_buddy_eq)
  have "unat (b + 2 ^ n) = unat b + 2 ^ n"
    using Suc.prems(2,3) nk by (intro unat_add_2p [where k = k]) simp_all
  then have "b < b + 2 ^ n"
    by (simp add: word_less_nat_alt)
  then have first: "first_buddy n b = b"
    by (simp add: first_buddy_def buddy)
  have Tn: "T n = {b + 2 ^ n}"
    using Suc.prems(4) nk by simp
  have step: "merge_step ?U n b = ?T'(Suc n := insert b (?T' (Suc n)))"
    by (auto simp add: merge_step_def buddy first Tn fun_eq_iff)
  have "a_merge ?U n b = a_merge (merge_step ?U n b) (Suc n) (first_buddy n b)"
    using n16 by (subst a_merge.simps) (simp add: buddy Tn)
  also have "\<dots> = a_merge (?T'(Suc n := insert b (?T' (Suc n)))) (Suc n) b"
    by (simp only: step first)
  also have "\<dots> = a_merge ((\<lambda>j. if Suc n \<le> j \<and> j < k then {} else ?T' j)(k := insert b (?T' k))) k b"
  proof (rule Suc.hyps(1))
    show "d = k - Suc n" using Suc.hyps(2) by simp
    show "Suc n \<le> k" using nk by simp
    show "k \<le> 16" by fact
    show "2 ^ k dvd unat b" by fact
    show "\<forall>j. Suc n \<le> j \<and> j < k \<longrightarrow> ?T' j = {b + 2 ^ j}"
      using Suc.prems(4) by simp
  qed
  also have "(\<lambda>j. if Suc n \<le> j \<and> j < k then {} else ?T' j)(k := insert b (?T' k)) =
             (\<lambda>j. if n \<le> j \<and> j < k then {} else T j)(k := insert b (T k))"
    using nk by (auto simp add: fun_eq_iff)
  finally show ?case .
qed

lemma a_merge_stop:
  assumes "no_free_buddies S" and "b \<in> S k"
  shows "a_merge S k b = S"
proof -
  have "k < 16 \<Longrightarrow> get_buddy (int k) b \<notin> S k"
    using assms by (auto simp add: no_free_buddies_def)
  then show ?thesis
    by (subst a_merge.simps) auto
qed

lemma free_after_alloc:
  assumes al: "blocks_aligned S" and nb: "no_free_buddies S"
    and nk: "n \<le> k" "k \<le> 16" and ne: "S k \<noteq> {}"
    and em: "\<forall>j. n \<le> j \<and> j < k \<longrightarrow> S j = {}"
  shows "a_free (alloc_sets S n k) n (Min (S k)) = S"
proof -
  let ?b = "Min (S k)"
  have b: "?b \<in> S k"
    using ne by (intro Min_in) simp_all
  show ?thesis
  proof (cases "k = n")
    case True
    have "(S(n := S n - {Min (S n)}))(n := insert (Min (S n)) (S n - {Min (S n)})) = S"
      using b True by (auto simp add: fun_eq_iff)
    then show ?thesis
      using True a_merge_stop [OF nb b] by (simp add: a_free_def alloc_sets_def)
  next
    case False
    then have lt: "n < k" using nk by simp
    let ?T = "alloc_sets S n k"
    have d: "2 ^ k dvd unat ?b"
      using al b nk by (simp add: blocks_aligned_def block_aligned_iff)
    have T: "\<forall>j. n \<le> j \<and> j < k \<longrightarrow> ?T j = {?b + 2 ^ j}"
      unfolding alloc_sets_explicit [OF lt nk(2)] by simp
    have "(\<lambda>j. if n \<le> j \<and> j < k then {} else ?T j)(k := insert ?b (?T k)) = S"
      unfolding alloc_sets_explicit [OF lt nk(2)] using b em by (auto simp add: fun_eq_iff)
    then have "a_free ?T n ?b = a_merge S k ?b"
      unfolding a_free_def merge_cascade [OF nk d T] by simp
    then show ?thesis
      using a_merge_stop [OF nb b] by simp
  qed
qed

text \<open>
  Memory without stale links.  Let the state satisfy the invariants, let every frame
  that is not listed hold a null link, and let \<open>allocate_pages\<close> for an order in range
  return the page \<open>p\<close>.  Then \<open>free_pages\<close> for \<open>p\<close> and the same order
  returns, the invariants hold again, and every order lists the same blocks as before
  the allocation; in particular each order has the same number of free pages.
\<close>

lemma allocate_then_free_restores:
  assumes wf: "well_formed s" and al: "blocks_aligned (free_set s)"
    and dj: "blocks_disjoint (free_set s)" and nb: "no_free_buddies (free_set s)"
    and ln: "links_null s (free_set s)"
    and o: "0 \<le> order" "order \<le> LastOrder"
    and a: "allocate_pages s order flags = Inr (Some p, s1)"
  shows "\<exists>s2. free_pages s1 p order = Inr s2
          \<and> well_formed s2 \<and> blocks_aligned (free_set s2) \<and> blocks_disjoint (free_set s2)
          \<and> no_free_buddies (free_set s2) \<and> links_null s2 (free_set s2)
          \<and> (\<forall>n\<le>16. free_set s2 n = free_set s n)
          \<and> (\<forall>n\<le>16. card (free_set s2 n) * 2 ^ n = card (free_set s n) * 2 ^ n)"
proof -
  define n where "n = nat order"
  define S where "S = free_set s"
  have order: "order = int n" and n: "n \<le> 16"
    using o by (simp_all add: n_def LastOrder_def)
  have fs: "free_sets s S"
    unfolding S_def using wf by (rule well_formed_free_sets)
  note inv = al [folded S_def] dj [folded S_def] nb [folded S_def] ln [folded S_def]
  have ex: "\<exists>j. n \<le> j \<and> j \<le> 16 \<and> S j \<noteq> {}"
  proof (rule ccontr)
    assume "\<not> (\<exists>j. n \<le> j \<and> j \<le> 16 \<and> S j \<noteq> {})"
    then have e: "\<forall>j. n \<le> j \<and> j \<le> 16 \<longrightarrow> S j = {}"
      by blast
    have "\<forall>k. order \<le> k \<and> k \<le> LastOrder \<longrightarrow> free_list s (nat k) = None"
    proof (intro allI impI)
      fix k :: int assume k: "order \<le> k \<and> k \<le> LastOrder"
      then have "nat k \<le> 16" "n \<le> nat k"
        using order by (auto simp add: LastOrder_def)
      then show "free_list s (nat k) = None"
        using free_sets_head [OF fs, of "nat k"] e by simp
    qed
    then have "\<exists>s'. iterative_split s order = Inr (None, s')"
      using iterative_split_null_iff(1) [OF o] by simp
    then show False
      using a o by (auto simp add: allocate_pages_def)
  qed
  define k where "k = (LEAST j. n \<le> j \<and> j \<le> 16 \<and> S j \<noteq> {})"
  have k: "n \<le> k \<and> k \<le> 16 \<and> S k \<noteq> {}"
    unfolding k_def using ex by (rule LeastI_ex)
  have em: "\<forall>j. n \<le> j \<and> j < k \<longrightarrow> S j = {}"
  proof (intro allI impI)
    fix j assume j: "n \<le> j \<and> j < k"
    then have "\<not> (n \<le> j \<and> j \<le> 16 \<and> S j \<noteq> {})"
      unfolding k_def by (auto dest: not_less_Least)
    then show "S j = {}"
      using j k by simp
  qed
  have nk: "n \<le> k" "k \<le> 16" and ne: "S k \<noteq> {}"
    using k by simp_all
  let ?T = "alloc_sets S n k"
  note al_s = allocate_pages_sets [OF fs inv(1,2) nk ne em]
  from al_s(1) [of flags] a have p: "p = Min (S k)" and fs1: "free_sets s1 ?T"
    and ln1: "links_null s1 ?T"
    using inv(4) unfolding order by auto
  have fresh: "pages n p \<inter> covered ?T = {}"
    unfolding al_s(4) p by blast
  have alp: "block_aligned (int n) p"
    unfolding p by (rule al_s(6))
  have restored: "a_free ?T n p = S"
    unfolding p using inv(1,3) nk ne em by (rule free_after_alloc)
  from free_pages_sets [OF fs1 al_s(2,3) n alp fresh] ln1 obtain s2
    where r: "free_pages s1 p (int n) = Inr s2" and fs2: "free_sets s2 S"
      and ln2: "links_null s2 S"
    unfolding restored by blast
  note st = state_invariants [OF fs2]
  have same: "\<forall>m\<le>16. free_set s2 m = free_set s m"
    using free_set_eq [OF fs2] by (simp add: S_def)
  show ?thesis
    using r st inv ln2 same unfolding order by auto
qed

lemma allocate_then_free_restores_witness:
  "\<exists>s1 s2. allocate_pages one_page_allocator 0 flag_zero = Inr (Some 0, s1)
          \<and> free_pages s1 0 0 = Inr s2 \<and> well_formed s2 \<and> free_set s2 0 = {0}"
proof -
  note inv = state_invariants [OF one_page_allocator_sets]
  note S = one_page_allocator_invariants
  have e: "free_set one_page_allocator 0 = {0}"
    using free_set_eq [OF one_page_allocator_sets] by simp
  have h: "well_formed one_page_allocator" "blocks_aligned (free_set one_page_allocator)"
    "blocks_disjoint (free_set one_page_allocator)"
    "no_free_buddies (free_set one_page_allocator)"
    "links_null one_page_allocator (free_set one_page_allocator)"
    "(0::int) \<le> 0" "0 \<le> LastOrder"
    using inv S by (simp_all add: LastOrder_def)
  show ?thesis
    using allocate_then_free_restores [OF h alloc_one] e alloc_one by auto
qed

section \<open>Bulk insertion on free sets\<close>

lemma overflow_check_iff:
  "overflow_check pfn page_count \<longleftrightarrow> unat pfn + unat page_count < 2 ^ 64 - 1"
proof -
  have m: "UNIT64_MAX = - 1"
    by (simp add: UNIT64_MAX_def)
  have "page_count \<le> UNIT64_MAX"
    unfolding m by simp
  then have "unat (UNIT64_MAX - page_count) = unat UNIT64_MAX - unat page_count"
    by (rule unat_sub)
  moreover have "unat UNIT64_MAX = 2 ^ 64 - 1"
    by (simp add: UNIT64_MAX_def)
  moreover have "unat page_count < 2 ^ 64"
    using unsigned_less [of page_count] by simp
  ultimately show ?thesis
    unfolding overflow_check_def word_less_nat_alt by simp linarith
qed

lemma exp_le_word: "m < 64 \<Longrightarrow> (2 ^ m :: u64) \<le> c \<longleftrightarrow> 2 ^ m \<le> unat c"
  by (simp add: word_le_nat_alt unat_2p)

lemma exp_and_bit: "(2 ^ m :: u64) AND p \<noteq> 0 \<longleftrightarrow> bit p m"
  unfolding and.commute [of "2 ^ m"] by (simp add: and_exp_eq_0_iff_not_bit)

lemma exp_less_64:
  assumes "(2::nat) ^ m < 2 ^ 64"
  shows "m < 64"
  using power_less_imp_less_exp [of 2 m 64] assms by simp

lemma unat_add_exp:
  assumes "unat (p :: u64) + 2 ^ m < 2 ^ 64"
  shows "unat (p + 2 ^ m) = unat p + 2 ^ m"
proof -
  have "(2::nat) ^ m < 2 ^ 64"
    using assms by linarith
  then have m: "unat (2 ^ m :: u64) = 2 ^ m"
    by (intro unat_2p exp_less_64)
  then have "unat p + unat (2 ^ m :: u64) < 2 ^ LENGTH(64)"
    using assms by simp
  then have "unat (p + 2 ^ m) = unat p + unat (2 ^ m :: u64)"
    by (simp only: unat_add_lem)
  then show ?thesis
    using m by simp
qed

lemma unat_sub_exp:
  assumes "2 ^ m \<le> unat (c :: u64)"
  shows "unat (c - 2 ^ m) = unat c - 2 ^ m"
proof -
  have "unat c < 2 ^ 64"
    using unsigned_less [of c] by simp
  then have "(2::nat) ^ m < 2 ^ 64"
    using assms by linarith
  then have m: "m < 64"
    by (rule exp_less_64)
  then have "(2 ^ m :: u64) \<le> c"
    using assms by (simp add: exp_le_word)
  then show ?thesis
    using m by (simp add: unat_sub unat_2p)
qed

lemma odd_multiple_step:
  fixes a :: nat
  assumes "2 ^ m dvd a" and "odd (a div 2 ^ m)"
  shows "2 ^ Suc m dvd a + 2 ^ m"
proof -
  from assms(1) obtain k where a: "a = 2 ^ m * k" ..
  then have "a div 2 ^ m = k"
    by simp
  with assms(2) have "even (Suc k)"
    by simp
  then obtain l where l: "Suc k = 2 * l" ..
  have "a + 2 ^ m = 2 ^ m * Suc k"
    using a by simp
  also have "\<dots> = 2 ^ Suc m * l"
    unfolding l by simp
  finally show ?thesis
    by simp
qed

lemma free_pages_invariant:
  assumes inv: "sets_invariant s S" and n: "n \<le> 16" and d: "2 ^ n dvd unat p"
    and fresh: "pages n p \<inter> covered S = {}" and r: "free_pages s p (int n) = Inr s'"
  shows "\<exists>S'. sets_invariant s' S' \<and> covered S' = covered S \<union> pages n p"
proof -
  have alp: "block_aligned (int n) p"
    using d n by (simp add: block_aligned_iff)
  from inv have fs: "free_sets s S" and al: "blocks_aligned S" and dj: "blocks_disjoint S"
    and nb: "no_free_buddies S"
    by (simp_all add: sets_invariant_def)
  from free_pages_sets [OF fs al dj n alp fresh] r have "free_sets s' (a_free S n p)"
    by auto
  moreover note a_free_invariants [OF al dj n alp fresh]
  ultimately have "sets_invariant s' (a_free S n p)
      \<and> covered (a_free S n p) = covered S \<union> pages n p"
    using nb unfolding sets_invariant_def by blast
  then show ?thesis
    by blast
qed

lemma insert_last_order_invariant:
  assumes inv: "sets_invariant s S" and d: "2 ^ 16 dvd unat p"
    and fresh: "pages 16 p \<inter> covered S = {}" and r: "insert_free_block s LastOrder p = Inr s'"
  shows "\<exists>S'. sets_invariant s' S' \<and> covered S' = covered S \<union> pages 16 p"
proof -
  let ?S = "S(16 := insert p (S 16))"
  have n: "(16::nat) \<le> 16"
    by simp
  have alp: "block_aligned (int 16) p"
    using d block_aligned_iff [of 16 p] by simp
  from inv have fs: "free_sets s S" and al: "blocks_aligned S" and dj: "blocks_disjoint S"
    and nb: "no_free_buddies S"
    by (simp_all add: sets_invariant_def)
  have notin: "\<forall>m\<le>16. p \<notin> S m"
    using covered_fresh [OF fresh] by simp
  have "LastOrder = int 16"
    by (simp add: LastOrder_def)
  with insert_free_block_sets [OF fs blocks_disjoint_sets [OF dj] n alp notin] r
  have fs': "free_sets s' ?S"
    by auto
  have nb': "no_free_buddies ?S"
    using nb by (auto simp add: no_free_buddies_def)
  note insert_invariants [OF al dj n alp fresh]
  with fs' nb' have "sets_invariant s' ?S \<and> covered ?S = covered S \<union> pages 16 p"
    unfolding sets_invariant_def by blast
  then show ?thesis
    by blast
qed

section \<open>The loops of the bulk insertion\<close>

lemma range_fresh_block:
  assumes "range_fresh S pfn c" and "2 ^ m \<le> c"
  shows "pages m pfn \<inter> covered S = {}" and "unat (pfn + 2 ^ m) = unat pfn + 2 ^ m"
proof -
  have "pages m pfn \<subseteq> {unat pfn ..< unat pfn + c}"
    using assms(2) by (auto simp add: pages_def)
  then show "pages m pfn \<inter> covered S = {}"
    using assms(1) unfolding range_fresh_def by blast
  have "unat pfn + 2 ^ m < 2 ^ 64"
    using assms unfolding range_fresh_def by linarith
  then show "unat (pfn + 2 ^ m) = unat pfn + 2 ^ m"
    by (rule unat_add_exp)
qed

lemma range_fresh_rest:
  assumes "range_fresh S pfn c" and "2 ^ m \<le> c"
    and "covered S' = covered S \<union> pages m pfn"
  shows "range_fresh S' (pfn + 2 ^ m) (c - 2 ^ m)"
proof -
  note u = range_fresh_block(2) [OF assms(1,2)]
  have "{unat pfn + 2 ^ m ..< unat pfn + 2 ^ m + (c - 2 ^ m)} \<inter> pages m pfn = {}"
    by (auto simp add: pages_def)
  moreover have "{unat pfn + 2 ^ m ..< unat pfn + 2 ^ m + (c - 2 ^ m)}
       \<subseteq> {unat pfn ..< unat pfn + c}"
    using assms(2) by auto
  then have "{unat pfn + 2 ^ m ..< unat pfn + 2 ^ m + (c - 2 ^ m)} \<inter> covered S = {}"
    using assms(1) unfolding range_fresh_def by blast
  moreover have "unat pfn + 2 ^ m + (c - 2 ^ m) < 2 ^ 64"
    using assms(1,2) unfolding range_fresh_def by linarith
  ultimately show ?thesis
    unfolding range_fresh_def u assms(3) by blast
qed

lemma low_order_sweep_exit:
  assumes "\<not> (2 ^ m \<le> unat count \<and> m < 16)" and "m < 64"
  shows "low_order_sweep s (int m) (2 ^ m) pfn count = Inr (s, int m, 2 ^ m, pfn, count)"
  using assms by (subst low_order_sweep.simps) (auto simp add: exp_le_word LastOrder_def)

lemma low_order_sweep_step:
  assumes "2 ^ m \<le> unat count" and "m < 16"
  shows "low_order_sweep s (int m) (2 ^ m) pfn count =
     (if bit pfn m then
        (case free_pages s pfn (int m) of
           Inl e \<Rightarrow> Inl e
         | Inr s1 \<Rightarrow>
             low_order_sweep s1 (int (Suc m)) (2 ^ Suc m) (pfn + 2 ^ m) (count - 2 ^ m))
      else low_order_sweep s (int (Suc m)) (2 ^ Suc m) pfn count)"
proof -
  have e: "int m + 1 = int (Suc m)"
    by simp
  have pb: "push_bit 1 (2 ^ m :: u64) = 2 ^ Suc m"
    by (simp add: push_bit_eq_mult)
  have c: "(2 ^ m :: u64) \<le> count \<and> int m < LastOrder"
    using assms by (simp add: exp_le_word LastOrder_def)
  show ?thesis
    by (subst low_order_sweep.simps) (simp only: c e pb exp_and_bit if_True simp_thms)
qed

lemma low_order_sweep_invariant:
  assumes "sets_invariant s S" and "m \<le> 16" and "2 ^ m dvd unat pfn"
    and "range_fresh S pfn (unat count)"
    and "low_order_sweep s (int m) (2 ^ m) pfn count = Inr (s', order', lsb', pfn', count')"
  shows "\<exists>S' m'. sets_invariant s' S' \<and> m' \<le> 16 \<and> order' = int m' \<and> lsb' = 2 ^ m'
           \<and> 2 ^ m' dvd unat pfn' \<and> range_fresh S' pfn' (unat count')
           \<and> (unat count' < 2 ^ m' \<or> m' = 16)"
  using assms
proof (induction "16 - m" arbitrary: s S m pfn count)
  case 0
  then have m: "\<not> (2 ^ m \<le> unat count \<and> m < 16)" "m < 64" "m = 16"
    by simp_all
  from low_order_sweep_exit [OF m(1,2)] "0.prems"(5)
  have "s' = s" "order' = int m" "lsb' = 2 ^ m" "pfn' = pfn" "count' = count"
    by simp_all
  then show ?case
    using "0.prems" m(3) by blast
next
  case (Suc d)
  note inv = Suc.prems(1) and dv = Suc.prems(3) and rf = Suc.prems(4) and r = Suc.prems(5)
  have m: "m < 16" "m < 64"
    using Suc.hyps(2) by simp_all
  show ?case
  proof (cases "2 ^ m \<le> unat count")
    case False
    then have "\<not> (2 ^ m \<le> unat count \<and> m < 16)"
      by simp
    from low_order_sweep_exit [OF this m(2)] r
    have "s' = s" "order' = int m" "lsb' = 2 ^ m" "pfn' = pfn" "count' = count"
      by simp_all
    moreover have "unat count < 2 ^ m"
      using False by simp
    ultimately show ?thesis
      using inv dv rf Suc.prems(2) by blast
  next
    case True
    note step = low_order_sweep_step [OF True m(1)]
    have d': "d = 16 - Suc m" and m': "Suc m \<le> 16"
      using Suc.hyps(2) by simp_all
    show ?thesis
    proof (cases "bit pfn m")
      case bit: True
      from r obtain s1 where f: "free_pages s pfn (int m) = Inr s1"
        and rec: "low_order_sweep s1 (int (Suc m)) (2 ^ Suc m) (pfn + 2 ^ m) (count - 2 ^ m)
                    = Inr (s', order', lsb', pfn', count')"
        unfolding step using bit by (auto split: sum.splits)
      note blk = range_fresh_block [OF rf True]
      from free_pages_invariant [OF inv Suc.prems(2) dv blk(1) f] obtain S1
        where inv1: "sets_invariant s1 S1" and cov1: "covered S1 = covered S \<union> pages m pfn"
        by blast
      have uc: "unat (count - 2 ^ m) = unat count - 2 ^ m"
        using True by (rule unat_sub_exp)
      have "odd (unat pfn div 2 ^ m)"
        using bit by (simp add: bit_unat_div)
      with dv have "2 ^ Suc m dvd unat pfn + 2 ^ m"
        by (rule odd_multiple_step)
      then have d1: "2 ^ Suc m dvd unat (pfn + 2 ^ m)"
        unfolding blk(2) .
      have rf1: "range_fresh S1 (pfn + 2 ^ m) (unat (count - 2 ^ m))"
        unfolding uc using rf True cov1 by (rule range_fresh_rest)
      show ?thesis
        using d' inv1 m' d1 rf1 rec by (rule Suc.hyps(1))
    next
      case nobit: False
      from r have rec: "low_order_sweep s (int (Suc m)) (2 ^ Suc m) pfn count
                    = Inr (s', order', lsb', pfn', count')"
        unfolding step using nobit by simp
      have "even (unat pfn div 2 ^ m)"
        using nobit by (simp add: bit_unat_div)
      with dv have d1: "2 ^ Suc m dvd unat pfn"
        by (rule dvd_next_power)
      show ?thesis
        using d' inv m' d1 rf rec by (rule Suc.hyps(1))
    qed
  qed
qed

lemma max_block_size_eq: "max_block_size = 2 ^ 16"
  by (simp add: max_block_size_def LastOrder_def)

lemma cap_loop_exit:
  assumes "unat count \<le> 2 ^ 16"
  shows "cap_loop s pfn count = Inr (s, pfn, count)"
proof -
  have "unat max_block_size = 2 ^ 16"
    by (simp add: max_block_size_def LastOrder_def)
  then have "\<not> max_block_size < count"
    using assms by (simp add: word_less_nat_alt)
  then show ?thesis
    by (subst cap_loop.simps) simp
qed

lemma cap_loop_step:
  assumes "\<not> unat count \<le> 2 ^ 16"
  shows "cap_loop s pfn count =
     (case insert_free_block s LastOrder pfn of
        Inl e \<Rightarrow> Inl e
      | Inr s1 \<Rightarrow> cap_loop s1 (pfn + 2 ^ 16) (count - 2 ^ 16))"
proof -
  have "unat max_block_size = 2 ^ 16"
    by (simp add: max_block_size_def LastOrder_def)
  then have "max_block_size < count"
    using assms by (simp add: word_less_nat_alt)
  then have c: "(2 ^ 16 :: u64) < count"
    unfolding max_block_size_eq .
  show ?thesis
    by (subst cap_loop.simps) (simp only: max_block_size_eq c if_True)
qed

lemma cap_loop_invariant:
  assumes "sets_invariant s S" and "2 ^ 16 dvd unat pfn"
    and "range_fresh S pfn (unat count)"
    and "cap_loop s pfn count = Inr (s', pfn', count')"
  shows "\<exists>S'. sets_invariant s' S' \<and> 2 ^ 16 dvd unat pfn'
           \<and> range_fresh S' pfn' (unat count') \<and> unat count' \<le> 2 ^ 16"
  using assms
proof (induction "unat count" arbitrary: s S pfn count rule: less_induct)
  case less
  note inv = less.prems(1) and dv = less.prems(2) and rf = less.prems(3) and r = less.prems(4)
  show ?case
  proof (cases "unat count \<le> 2 ^ 16")
    case True
    from cap_loop_exit [OF True] r have "s' = s" "pfn' = pfn" "count' = count"
      by simp_all
    then show ?thesis
      using inv dv rf True by blast
  next
    case False
    then have le: "(2::nat) ^ 16 \<le> unat count"
      by simp
    from r obtain s1 where f: "insert_free_block s LastOrder pfn = Inr s1"
      and rec: "cap_loop s1 (pfn + 2 ^ 16) (count - 2 ^ 16) = Inr (s', pfn', count')"
      unfolding cap_loop_step [OF False] by (auto split: sum.splits)
    note blk = range_fresh_block [OF rf le]
    from insert_last_order_invariant [OF inv dv blk(1) f] obtain S1
      where inv1: "sets_invariant s1 S1" and cov1: "covered S1 = covered S \<union> pages 16 pfn"
      by blast
    have uc: "unat (count - 2 ^ 16) = unat count - 2 ^ 16"
      using le by (rule unat_sub_exp)
    have d1: "2 ^ 16 dvd unat (pfn + 2 ^ 16)"
      unfolding blk(2) using dv by simp
    have rf1: "range_fresh S1 (pfn + 2 ^ 16) (unat (count - 2 ^ 16))"
      unfolding uc using rf le cov1 by (rule range_fresh_rest)
    have "unat (count - 2 ^ 16) < unat count"
      unfolding uc using le by simp
    then show ?thesis
      using inv1 d1 rf1 rec by (rule less.hyps)
  qed
qed

lemma high_order_sweep_last:
  "high_order_sweep s (int 0) (2 ^ 0) pfn count = Inr s"
  by (simp add: high_order_sweep.simps)

lemma high_order_sweep_step:
  assumes "Suc j \<le> 16"
  shows "high_order_sweep s (int (Suc j)) (2 ^ Suc j) pfn count =
     (if bit count j then
        (case free_pages s pfn (int j) of
           Inl e \<Rightarrow> Inl e
         | Inr s1 \<Rightarrow> high_order_sweep s1 (int j) (2 ^ j) (pfn + 2 ^ j) count)
      else high_order_sweep s (int j) (2 ^ j) pfn count)"
proof -
  have j: "Suc j < 64"
    using assms by simp
  have "unat (2 ^ Suc j :: u64) = 2 ^ Suc j"
    using j by (rule unat_2p)
  then have pos: "(0 :: u64) < 2 ^ Suc j"
    by (simp add: word_less_nat_alt)
  have db: "drop_bit 1 (2 ^ Suc j :: u64) = 2 ^ j"
    unfolding drop_bit_exp_eq using j by simp
  have e: "int (Suc j) - 1 = int j"
    by simp
  show ?thesis
    by (subst high_order_sweep.simps)
      (simp only: pos db e exp_and_bit if_True Let_def)
qed

lemma mod_next_power:
  fixes c :: nat
  shows "c mod 2 ^ Suc j = (if odd (c div 2 ^ j) then 2 ^ j else 0) + c mod 2 ^ j"
proof -
  have "c mod (2 ^ j * 2) = 2 ^ j * (c div 2 ^ j mod 2) + c mod 2 ^ j"
    by (rule mod_mult2_eq)
  then show ?thesis
    by (simp add: mult.commute odd_iff_mod_2_eq_one)
qed

lemma high_order_sweep_invariant:
  assumes "sets_invariant s S" and "m \<le> 16" and "2 ^ m dvd unat pfn"
    and "range_fresh S pfn (unat count mod 2 ^ m)"
    and "high_order_sweep s (int m) (2 ^ m) pfn count = Inr s'"
  shows "\<exists>S'. sets_invariant s' S'"
  using assms
proof (induction m arbitrary: s S pfn)
  case 0
  then have "s' = s"
    unfolding high_order_sweep_last by simp
  then show ?case
    using "0.prems"(1) by blast
next
  case (Suc j)
  note inv = Suc.prems(1) and dv = Suc.prems(3) and rf = Suc.prems(4) and r = Suc.prems(5)
  have j: "j \<le> 16"
    using Suc.prems(2) by simp
  have d: "2 ^ j dvd unat pfn"
    using dv by (rule dvd_trans [rotated]) simp
  note step = high_order_sweep_step [OF Suc.prems(2)]
  show ?case
  proof (cases "bit count j")
    case bit: True
    from r obtain s1 where f: "free_pages s pfn (int j) = Inr s1"
      and rec: "high_order_sweep s1 (int j) (2 ^ j) (pfn + 2 ^ j) count = Inr s'"
      unfolding step using bit by (auto split: sum.splits)
    have "odd (unat count div 2 ^ j)"
      using bit by (simp add: bit_unat_div)
    then have md: "unat count mod 2 ^ Suc j = 2 ^ j + unat count mod 2 ^ j"
      using mod_next_power [of "unat count" j] by simp
    then have le: "(2::nat) ^ j \<le> unat count mod 2 ^ Suc j"
      by simp
    note blk = range_fresh_block [OF rf le]
    from free_pages_invariant [OF inv j d blk(1) f] obtain S1
      where inv1: "sets_invariant s1 S1" and cov1: "covered S1 = covered S \<union> pages j pfn"
      by blast
    have d1: "2 ^ j dvd unat (pfn + 2 ^ j)"
      unfolding blk(2) using d by simp
    have "range_fresh S1 (pfn + 2 ^ j) (unat count mod 2 ^ Suc j - 2 ^ j)"
      using rf le cov1 by (rule range_fresh_rest)
    then have rf1: "range_fresh S1 (pfn + 2 ^ j) (unat count mod 2 ^ j)"
      unfolding md by simp
    show ?thesis
      using inv1 j d1 rf1 rec by (rule Suc.IH)
  next
    case nobit: False
    from r have rec: "high_order_sweep s (int j) (2 ^ j) pfn count = Inr s'"
      unfolding step using nobit by simp
    have "even (unat count div 2 ^ j)"
      using nobit by (simp add: bit_unat_div)
    then have "unat count mod 2 ^ Suc j = unat count mod 2 ^ j"
      using mod_next_power [of "unat count" j] by simp
    then have rf1: "range_fresh S pfn (unat count mod 2 ^ j)"
      using rf by simp
    show ?thesis
      using inv j d rf1 rec by (rule Suc.IH)
  qed
qed

lemma range_fresh_less:
  assumes "range_fresh S pfn c" and "c' \<le> c"
  shows "range_fresh S pfn c'"
proof -
  have "{unat pfn ..< unat pfn + c'} \<subseteq> {unat pfn ..< unat pfn + c}"
    using assms(2) by auto
  moreover have "unat pfn + c' < 2 ^ 64"
    using assms unfolding range_fresh_def by linarith
  ultimately show ?thesis
    using assms(1) unfolding range_fresh_def by blast
qed

lemma insert_free_pages_invariant:
  assumes inv: "sets_invariant s S"
    and fresh: "{unat pfn ..< unat pfn + unat count} \<inter> covered S = {}"
    and r: "insert_free_pages s pfn count = Inr s'"
  shows "\<exists>S'. sets_invariant s' S'"
proof -
  have oc: "overflow_check pfn count"
    using r by (auto simp add: insert_free_pages_def split: if_splits)
  then have rf: "range_fresh S pfn (unat count)"
    using fresh unfolding range_fresh_def overflow_check_iff by simp
  from r oc obtain s1 order lsb pfn1 count1 s2 pfn2 count2
    where low: "low_order_sweep s 0 1 pfn count = Inr (s1, order, lsb, pfn1, count1)"
      and cap: "cap_loop s1 pfn1 count1 = Inr (s2, pfn2, count2)"
      and high: "high_order_sweep s2 order lsb pfn2 count2 = Inr s'"
    by (auto simp add: insert_free_pages_def split: sum.splits prod.splits)
  have low': "low_order_sweep s (int 0) (2 ^ 0) pfn count = Inr (s1, order, lsb, pfn1, count1)"
    using low by simp
  have "(0::nat) \<le> 16" "2 ^ 0 dvd unat pfn"
    by simp_all
  from low_order_sweep_invariant [OF inv this rf low'] obtain S1 m
    where inv1: "sets_invariant s1 S1" and m: "m \<le> 16" and order: "order = int m"
      and lsb: "lsb = 2 ^ m" and d1: "2 ^ m dvd unat pfn1"
      and rf1: "range_fresh S1 pfn1 (unat count1)" and c: "unat count1 < 2 ^ m \<or> m = 16"
    by blast
  have "\<exists>S2. sets_invariant s2 S2 \<and> 2 ^ m dvd unat pfn2 \<and> range_fresh S2 pfn2 (unat count2)"
  proof (cases "m = 16")
    case True
    from cap_loop_invariant [OF inv1 d1 [unfolded True] rf1 cap] show ?thesis
      unfolding True by blast
  next
    case False
    then have "m < 16"
      using m by simp
    then have "(2::nat) ^ m < 2 ^ 16"
      by (rule power_strict_increasing) simp
    then have "unat count1 \<le> 2 ^ 16"
      using c False by linarith
    from cap_loop_exit [OF this] cap have "s2 = s1" "pfn2 = pfn1" "count2 = count1"
      by simp_all
    then show ?thesis
      using inv1 d1 rf1 by blast
  qed
  then obtain S2 where inv2: "sets_invariant s2 S2" and d2: "2 ^ m dvd unat pfn2"
    and rf2: "range_fresh S2 pfn2 (unat count2)"
    by blast
  have "unat count2 mod 2 ^ m \<le> unat count2"
    by (rule mod_less_eq_dividend)
  with rf2 have rf2': "range_fresh S2 pfn2 (unat count2 mod 2 ^ m)"
    by (rule range_fresh_less)
  show ?thesis
    using inv2 m d2 rf2' high [unfolded order lsb] by (rule high_order_sweep_invariant)
qed

section \<open>Invariants of the reachable states\<close>

lemma constructed_invariant: "sets_invariant (page_allocator_buddy links bytes) (\<lambda>n. {})"
  by (simp add: sets_invariant_def free_sets_def free_list_of_def page_allocator_buddy_def
      blocks_aligned_def blocks_disjoint_def no_free_buddies_def)

lemma allocate_pages_invariant:
  assumes inv: "sets_invariant s S" and r: "allocate_pages s order flags = Inr (r, s')"
  shows "\<exists>S'. sets_invariant s' S'"
proof (cases r)
  case None
  have "s' = s"
  proof (cases "order < 0 \<or> order > LastOrder")
    case True
    then show ?thesis
      using r by (simp add: allocate_pages_def)
  next
    case False
    then have o: "0 \<le> order" "order \<le> LastOrder"
      by simp_all
    from r None False have "iterative_split s order = Inr (None, s')"
      by (auto simp add: allocate_pages_def split: sum.splits option.splits)
    then show ?thesis
      by (rule iterative_split_null_iff(2) [OF o])
  qed
  then show ?thesis
    using inv by blast
next
  case (Some p)
  from inv have fs: "free_sets s S" and al: "blocks_aligned S" and dj: "blocks_disjoint S"
    and nb: "no_free_buddies S"
    by (simp_all add: sets_invariant_def)
  have o: "0 \<le> order" "order \<le> LastOrder"
    using r Some by (auto simp add: allocate_pages_def split: if_splits)
  define n where "n = nat order"
  have order: "order = int n" and n: "n \<le> 16"
    using o by (simp_all add: n_def LastOrder_def)
  have ex: "\<exists>j. n \<le> j \<and> j \<le> 16 \<and> S j \<noteq> {}"
  proof (rule ccontr)
    assume "\<not> (\<exists>j. n \<le> j \<and> j \<le> 16 \<and> S j \<noteq> {})"
    then have e: "\<forall>j. n \<le> j \<and> j \<le> 16 \<longrightarrow> S j = {}"
      by blast
    have "\<forall>k. order \<le> k \<and> k \<le> LastOrder \<longrightarrow> free_list s (nat k) = None"
    proof (intro allI impI)
      fix k :: int assume k: "order \<le> k \<and> k \<le> LastOrder"
      then have "nat k \<le> 16" "n \<le> nat k"
        using order by (auto simp add: LastOrder_def)
      then show "free_list s (nat k) = None"
        using free_sets_head [OF fs, of "nat k"] e by simp
    qed
    then have "\<exists>s'. iterative_split s order = Inr (None, s')"
      using iterative_split_null_iff(1) [OF o] by simp
    then show False
      using r Some o by (auto simp add: allocate_pages_def)
  qed
  define k where "k = (LEAST j. n \<le> j \<and> j \<le> 16 \<and> S j \<noteq> {})"
  have k: "n \<le> k \<and> k \<le> 16 \<and> S k \<noteq> {}"
    unfolding k_def using ex by (rule LeastI_ex)
  have em: "\<forall>j. n \<le> j \<and> j < k \<longrightarrow> S j = {}"
  proof (intro allI impI)
    fix j assume j: "n \<le> j \<and> j < k"
    then have "\<not> (n \<le> j \<and> j \<le> 16 \<and> S j \<noteq> {})"
      unfolding k_def by (auto dest: not_less_Least)
    then show "S j = {}"
      using j k by simp
  qed
  have nk: "n \<le> k" "k \<le> 16" and ne: "S k \<noteq> {}"
    using k by simp_all
  note al_s = allocate_pages_sets [OF fs al dj nk ne em]
  from al_s(1) [of flags] r have "free_sets s' (alloc_sets S n k)"
    unfolding order by auto
  with al_s(2,3) alloc_sets_no_free_buddies [OF nb nk em]
  have "sets_invariant s' (alloc_sets S n k)"
    unfolding sets_invariant_def by blast
  then show ?thesis
    by blast
qed

lemma written_invariant:
  assumes inv: "sets_invariant s S" and q: "unat q \<notin> covered S"
  shows "sets_invariant (s\<lparr>next_free := (next_free s)(q := link),
                           frame_body := (frame_body s)(q := bytes)\<rparr>) S"
proof -
  let ?s = "s\<lparr>next_free := (next_free s)(q := link), frame_body := (frame_body s)(q := bytes)\<rparr>"
  from inv have fs: "free_sets s S"
    by (simp add: sets_invariant_def)
  have "free_sets ?s S"
    unfolding free_sets_def
  proof (intro allI impI)
    fix n :: nat assume n: "n \<le> 16"
    have l: "free_list_of s n (sorted_list_of_set (S n))"
      using fs n by (simp add: free_sets_def)
    have "q \<notin> S n"
    proof
      assume "q \<in> S n"
      then have "unat q \<in> covered S"
        using n unat_in_pages [of q n] by (auto simp add: covered_def)
      then show False
        using q by simp
    qed
    then have nf: "\<And>p. p \<in> set (sorted_list_of_set (S n)) \<Longrightarrow> next_free ?s p = next_free s p"
      by auto
    show "free_list_of ?s n (sorted_list_of_set (S n))"
    proof (rule free_list_of_frame [OF l])
      show "free_list ?s n = free_list s n"
        by simp
    next
      fix p assume "p \<in> set (sorted_list_of_set (S n))"
      then show "next_free ?s p = next_free s p"
        by (rule nf)
    qed
  qed
  then show ?thesis
    using inv by (simp add: sets_invariant_def)
qed

lemma reachable_sets_invariant: "reachable s \<Longrightarrow> \<exists>S. sets_invariant s S"
proof (induction rule: reachable.induct)
  case (constructed links bytes)
  show ?case
    using constructed_invariant by blast
next
  case (allocated s order flags r s')
  then show ?case
    using allocate_pages_invariant by blast
next
  case (freed s order p s')
  from freed.IH obtain S where inv: "sets_invariant s S"
    by blast
  then have fs: "free_sets s S"
    by (simp add: sets_invariant_def)
  have o: "0 \<le> order" "order \<le> LastOrder"
    using freed.hyps(4) by (auto simp add: free_pages_def split: if_splits)
  define n where "n = nat order"
  have order: "order = int n" and n: "n \<le> 16" "n < 64"
    using o by (simp_all add: n_def LastOrder_def)
  have d: "2 ^ n dvd unat p"
    using freed.hyps(2) n(2) unfolding order by (simp add: block_aligned_iff)
  have fresh: "pages n p \<inter> covered S = {}"
    using freed.hyps(3) unfolding state_invariants(5) [OF fs] n_def .
  from free_pages_invariant [OF inv n(1) d fresh freed.hyps(4) [unfolded order]]
  show ?case
    by blast
next
  case (inserted s pfn page_count s')
  from inserted.IH obtain S where inv: "sets_invariant s S"
    by blast
  then have fs: "free_sets s S"
    by (simp add: sets_invariant_def)
  have fresh: "{unat pfn ..< unat pfn + unat page_count} \<inter> covered S = {}"
    using inserted.hyps(2) unfolding state_invariants(5) [OF fs] .
  from inv fresh inserted.hyps(3) show ?case
    by (rule insert_free_pages_invariant)
next
  case (written s q link bytes)
  from written.IH obtain S where inv: "sets_invariant s S"
    by blast
  then have fs: "free_sets s S"
    by (simp add: sets_invariant_def)
  have "unat q \<notin> covered S"
    using written.hyps(2) unfolding state_invariants(5) [OF fs] .
  with inv show ?case
    by (blast intro: written_invariant)
qed

lemma free_one_page: "free_pages zero_memory_allocator 0 0 = Inr one_page_allocator"
  by (simp add: free_pages_def insert_free_block_def get_slot_def get_slot_loop.simps
      set_next_free_def iterative_merge.simps merge_buddies_def block_aligned_def
      get_buddy_def pages_per_block_def one_page_allocator_def zero_memory_allocator_def
      page_allocator_buddy_def LastOrder_def Let_def)

lemma insert_one_page: "insert_free_pages zero_memory_allocator 0 1 = Inr one_page_allocator"
  by (simp add: insert_free_pages_def overflow_check_def UNIT64_MAX_def low_order_sweep.simps
      cap_loop.simps high_order_sweep.simps LastOrder_def max_block_size_def free_one_page)

section \<open>A run over zeroed memory\<close>

lemmas run_defs =
  zero_memory_allocator_def page_allocator_buddy_def LastOrder_def
  block_aligned_def pages_per_block_def get_buddy_def set_next_free_def Let_def

lemma free_pair: "free_pages zero_memory_allocator 0 1 = Inr two_page_allocator"
  by (simp add: free_pages_def insert_free_block_def get_slot_def get_slot_loop.simps
      iterative_merge.simps merge_buddies_def two_page_allocator_def run_defs)

lemma insert_two_pages: "insert_free_pages zero_memory_allocator 0 2 = Inr two_page_allocator"
  by (simp add: insert_free_pages_def overflow_check_def UNIT64_MAX_def low_order_sweep.simps
      cap_loop.simps high_order_sweep.simps LastOrder_def max_block_size_def free_pair)

lemma allocate_lower:
  "allocate_pages two_page_allocator 0 flag_none = Inr (Some 0, upper_page_allocator)"
  by (simp add: allocate_pages_def iterative_split_def split_scan.simps split_down.simps
      split_block_def remove_free_block_def insert_buddies_def
      get_candidate_slot_def get_candidate_slot_loop.simps get_slot_def get_slot_loop.simps
      two_page_allocator_def upper_page_allocator_def flag_none_def flag_zero_def run_defs)

lemma allocate_upper:
  "allocate_pages upper_page_allocator 0 flag_none = Inr (Some 1, zero_memory_allocator)"
  by (simp add: allocate_pages_def iterative_split_def
      remove_free_block_def get_candidate_slot_def get_candidate_slot_loop.simps
      upper_page_allocator_def flag_none_def flag_zero_def run_defs)

lemma allocate_stale_upper:
  "allocate_pages stale_upper_allocator 0 flag_none = Inr (Some 1, stale_link_allocator)"
  by (simp add: allocate_pages_def iterative_split_def
      remove_free_block_def get_candidate_slot_def get_candidate_slot_loop.simps
      stale_upper_allocator_def stale_link_allocator_def
      upper_page_allocator_def flag_none_def flag_zero_def run_defs)

lemma insert_stale:
  "insert_free_block stale_link_allocator 0 1 = Inr stale_upper_allocator"
  by (simp add: insert_free_block_def get_slot_def get_slot_loop.simps
      stale_upper_allocator_def stale_link_allocator_def upper_page_allocator_def run_defs)

lemma merge_stale: "merge_buddies stale_upper_allocator 0 1 = Inl Assertion_failed"
  by (simp add: merge_buddies_def remove_buddies_def
      get_candidate_slot_def get_candidate_slot_loop.simps
      stale_upper_allocator_def upper_page_allocator_def run_defs)

lemma free_stale: "free_pages stale_link_allocator 1 0 = Inl Assertion_failed"
  by (simp add: free_pages_def insert_stale iterative_merge.simps merge_stale LastOrder_def)

lemma upper_page_sets: "free_sets upper_page_allocator ((\<lambda>n. {})(0 := {1}))"
  by (simp add: free_sets_def free_list_of_def upper_page_allocator_def
      zero_memory_allocator_def page_allocator_buddy_def)

lemma stale_upper_sets: "free_sets stale_upper_allocator ((\<lambda>n. {})(0 := {1}))"
  by (simp add: free_sets_def free_list_of_def stale_upper_allocator_def upper_page_allocator_def
      zero_memory_allocator_def page_allocator_buddy_def)

lemma upper_sets_invariants:
  "blocks_aligned ((\<lambda>n. {})(0 := {1}))" "blocks_disjoint ((\<lambda>n. {})(0 := {1}))"
  "no_free_buddies ((\<lambda>n. {})(0 := {1}))" "covered ((\<lambda>n. {})(0 := {1})) = {1}"
  by (auto simp add: blocks_aligned_def blocks_disjoint_def no_free_buddies_def covered_def
      block_aligned_def pages_per_block_def get_buddy_def pages_def split: if_splits)

lemma stale_upper_invariant: "sets_invariant stale_upper_allocator ((\<lambda>n. {})(0 := {1}))"
  unfolding sets_invariant_def using stale_upper_sets upper_sets_invariants by blast

lemma stale_link_invariant: "sets_invariant stale_link_allocator (\<lambda>n. {})"
  by (simp add: sets_invariant_def free_sets_def free_list_of_def stale_link_allocator_def
      zero_memory_allocator_def page_allocator_buddy_def
      blocks_aligned_def blocks_disjoint_def no_free_buddies_def)

lemma write_upper:
  "stale_upper_allocator =
     upper_page_allocator\<lparr>next_free := (next_free upper_page_allocator)(0 := Some 1),
                           frame_body := (frame_body upper_page_allocator)(0 := (\<lambda>off. 0))\<rparr>"
  by (simp add: stale_upper_allocator_def upper_page_allocator_def
      zero_memory_allocator_def page_allocator_buddy_def fun_eq_iff)

lemma write_zero:
  "stale_link_allocator =
     zero_memory_allocator\<lparr>next_free := (next_free zero_memory_allocator)(0 := Some 1),
                            frame_body := (frame_body zero_memory_allocator)(0 := (\<lambda>off. 0))\<rparr>"
  by (simp add: stale_link_allocator_def
      zero_memory_allocator_def page_allocator_buddy_def fun_eq_iff)

lemma reachable_upper: "reachable upper_page_allocator"
proof -
  have c: "covered (free_set zero_memory_allocator) = {}"
    using state_invariants(5) [OF constructed_invariant [THEN sets_invariant_def [THEN iffD1, THEN conjunct1]]]
    by (simp add: zero_memory_allocator_def covered_def)
  have "reachable zero_memory_allocator"
    unfolding zero_memory_allocator_def by (rule constructed)
  then have "reachable two_page_allocator"
    by (rule inserted [OF _ _ insert_two_pages]) (simp add: c)
  then show ?thesis
    using allocate_lower by (rule allocated)
qed

lemma reachable_stale_upper: "reachable stale_upper_allocator"
proof -
  have "covered (free_set upper_page_allocator) = {1}"
    using state_invariants(5) [OF upper_page_sets] upper_sets_invariants(4) by simp
  then have "unat (0 :: u64) \<notin> covered (free_set upper_page_allocator)"
    by simp
  with reachable_upper show ?thesis
    unfolding write_upper by (rule written)
qed

lemma reachable_stale_link: "reachable stale_link_allocator"
  using reachable_stale_upper allocate_stale_upper by (rule allocated)

section \<open>Invariants between public calls\<close>

text \<open>
  Claim C2.  In every state that a sequence of public calls respecting the preconditions
  can reach, each free list is strictly ascending (so it has no duplicates), every
  listed block starts at a multiple of \<open>2 ^ order\<close>, and for no order below \<open>LastOrder\<close>
  are two buddies listed together.  The listed blocks are also pairwise disjoint.
\<close>

theorem reachable_invariants:
  assumes "reachable s"
  shows "well_formed s \<and> blocks_aligned (free_set s)
       \<and> (\<forall>n\<le>16. \<forall>p\<in>free_set s n. 2 ^ n dvd unat p)
       \<and> no_free_buddies (free_set s) \<and> blocks_disjoint (free_set s)"
proof -
  from assms obtain S where inv: "sets_invariant s S"
    using reachable_sets_invariant by blast
  then have fs: "free_sets s S"
    by (simp add: sets_invariant_def)
  note st = state_invariants [OF fs]
  have al: "blocks_aligned (free_set s)"
    using inv st by (simp add: sets_invariant_def)
  have "\<forall>n\<le>16. \<forall>p\<in>free_set s n. 2 ^ n dvd unat p"
  proof (intro allI impI ballI)
    fix n :: nat and p assume n: "n \<le> 16" and p: "p \<in> free_set s n"
    then have "block_aligned (int n) p"
      using al by (simp add: blocks_aligned_def)
    moreover have "n < 64"
      using n by simp
    ultimately show "2 ^ n dvd unat p"
      by (simp add: block_aligned_iff)
  qed
  then show ?thesis
    using inv st al by (simp add: sets_invariant_def)
qed

theorem reachable_invariants_witness:
  "reachable one_page_allocator \<and> well_formed one_page_allocator
   \<and> no_free_buddies (free_set one_page_allocator) \<and> free_set one_page_allocator 0 = {0}
   \<and> reachable stale_upper_allocator \<and> well_formed stale_upper_allocator
   \<and> blocks_aligned (free_set stale_upper_allocator)
   \<and> no_free_buddies (free_set stale_upper_allocator)
   \<and> free_set stale_upper_allocator 0 = {1} \<and> next_free stale_upper_allocator 0 = Some 1"
proof -
  have c: "covered (free_set zero_memory_allocator) = {}"
    using state_invariants(5) [OF constructed_invariant [THEN sets_invariant_def [THEN iffD1, THEN conjunct1]]]
    by (simp add: zero_memory_allocator_def covered_def)
  have "reachable zero_memory_allocator"
    unfolding zero_memory_allocator_def by (rule constructed)
  then have r: "reachable one_page_allocator"
    by (rule inserted [OF _ _ insert_one_page]) (simp add: c)
  have "free_set one_page_allocator 0 = {0}"
    using free_set_eq [OF one_page_allocator_sets] by simp
  moreover have "free_set stale_upper_allocator 0 = {1}"
    using free_set_eq [OF stale_upper_sets] by simp
  moreover have "next_free stale_upper_allocator 0 = Some 1"
    by (simp add: stale_upper_allocator_def)
  ultimately show ?thesis
    using reachable_invariants [OF r] r
      reachable_invariants [OF reachable_stale_upper] reachable_stale_upper
    by simp
qed

section \<open>A stale link in an allocated page\<close>

text \<open>
  Claim C3, evaluated on the code.  Over zeroed memory two pages are inserted at PFN 0
  and both are allocated one by one; the owner of page 0 stores a pointer to the
  descriptor of page 1 in the first word of its page.  The state has no free block and
  satisfies the invariants.  \<open>free_pages\<close> for page 1 at order 0 inserts the page; its
  buddy, page 0, is not free, yet the test \<open>first.next_free == &second\<close> passes on the
  stale word, \<open>merge_buddies\<close> starts the merge and the assertion of
  \<open>get_candidate_slot\<close> fails, so that \<open>free_pages\<close> halts the kernel.
\<close>

theorem merge_test_passes_on_stale_link:
  "insert_free_pages zero_memory_allocator 0 2 = Inr two_page_allocator
   \<and> allocate_pages two_page_allocator 0 flag_none = Inr (Some 0, upper_page_allocator)
   \<and> allocate_pages upper_page_allocator 0 flag_none = Inr (Some 1, zero_memory_allocator)
   \<and> stale_link_allocator =
       zero_memory_allocator\<lparr>next_free := (next_free zero_memory_allocator)(0 := Some 1)\<rparr>
   \<and> reachable stale_link_allocator
   \<and> sets_invariant stale_link_allocator (\<lambda>n. {})
   \<and> insert_free_block stale_link_allocator 0 1 = Inr stale_upper_allocator
   \<and> get_buddy 0 1 = 0 \<and> first_buddy 0 1 = 0 \<and> second_buddy 0 1 = 1
   \<and> free_set stale_upper_allocator 0 = {1}
   \<and> next_free stale_upper_allocator 0 = Some 1
   \<and> merge_buddies stale_upper_allocator 0 1 = Inl Assertion_failed
   \<and> free_pages stale_link_allocator 1 0 = Inl Assertion_failed"
proof -
  have b: "get_buddy 0 1 = 0" "first_buddy 0 1 = 0" "second_buddy 0 1 = 1"
    by (simp_all add: first_buddy_def second_buddy_def get_buddy_def pages_per_block_def)
  have "free_set stale_upper_allocator 0 = {1}"
    using free_set_eq [OF stale_upper_sets] by simp
  moreover have "next_free stale_upper_allocator 0 = Some 1"
    by (simp add: stale_upper_allocator_def)
  moreover have "stale_link_allocator =
       zero_memory_allocator\<lparr>next_free := (next_free zero_memory_allocator)(0 := Some 1)\<rparr>"
    by (simp add: stale_link_allocator_def zero_memory_allocator_def page_allocator_buddy_def)
  ultimately show ?thesis
    using insert_two_pages allocate_lower allocate_upper reachable_stale_link
      stale_link_invariant insert_stale b merge_stale free_stale
    by simp
qed

text \<open>
  Claim C4, evaluated on the code.  Over zeroed memory two pages are inserted at PFN 0
  and page 0 is allocated; its owner stores a pointer to the descriptor of page 1 in
  the first word of its page.  The state lists page 1 at order 0 and satisfies the
  invariants.  \<open>allocate_pages\<close> for order 0 returns page 1, and \<open>free_pages\<close> for page 1
  and order 0 then fails the assertion of \<open>get_candidate_slot\<close> and halts the kernel
  instead of listing page 1 again.
\<close>

theorem allocate_then_free_halts_on_stale_link:
  "insert_free_pages zero_memory_allocator 0 2 = Inr two_page_allocator
   \<and> allocate_pages two_page_allocator 0 flag_none = Inr (Some 0, upper_page_allocator)
   \<and> stale_upper_allocator =
       upper_page_allocator\<lparr>next_free := (next_free upper_page_allocator)(0 := Some 1)\<rparr>
   \<and> reachable stale_upper_allocator
   \<and> sets_invariant stale_upper_allocator ((\<lambda>n. {})(0 := {1}))
   \<and> free_set stale_upper_allocator 0 = {1}
   \<and> allocate_pages stale_upper_allocator 0 flag_none = Inr (Some 1, stale_link_allocator)
   \<and> free_pages stale_link_allocator 1 0 = Inl Assertion_failed"
proof -
  have "free_set stale_upper_allocator 0 = {1}"
    using free_set_eq [OF stale_upper_sets] by simp
  moreover have "stale_upper_allocator =
       upper_page_allocator\<lparr>next_free := (next_free upper_page_allocator)(0 := Some 1)\<rparr>"
    by (simp add: stale_upper_allocator_def upper_page_allocator_def
        zero_memory_allocator_def page_allocator_buddy_def)
  ultimately show ?thesis
    using insert_two_pages allocate_lower reachable_stale_upper stale_upper_invariant
      allocate_stale_upper free_stale
    by simp
qed

section \<open>Properties of the buddy allocator\<close>

subsection \<open>Bulk insertion\<close>

lemma insert_free_pages_65536: "insert_free_pages s 0 65536 = Inr s"
  by (simp add: insert_free_pages_def overflow_check_def UNIT64_MAX_def low_order_sweep.simps
      cap_loop.simps high_order_sweep.simps LastOrder_def max_block_size_def)

lemma allocate_pages_empty:
  "allocate_pages (page_allocator_buddy links bytes) 0 flags =
     Inr (None, page_allocator_buddy links bytes)"
  by (simp add: allocate_pages_def iterative_split_def split_scan.simps
      page_allocator_buddy_def LastOrder_def)

text \<open>
  Claim C1, evaluated on the code.  On a freshly constructed allocator,
  \<open>insert_free_pages\<close> for PFN 0 and \<open>2 ^ 16\<close> pages returns without having listed any
  block: the low-order sweep ends with \<open>lsb = 2 ^ 16\<close>, the cap loop does not run since
  the count is not greater than \<open>2 ^ 16\<close>, and the high-order sweep tests the bits below
  \<open>2 ^ 16\<close> only.  The following \<open>allocate_pages\<close> for order 0 returns the null pointer.
\<close>

theorem insert_free_pages_drops_full_block:
  "insert_free_pages (page_allocator_buddy links bytes) 0 (2 ^ 16) =
     Inr (page_allocator_buddy links bytes)
   \<and> allocate_pages (page_allocator_buddy links bytes) 0 flags =
     Inr (None, page_allocator_buddy links bytes)
   \<and> free_list (page_allocator_buddy links bytes) = (\<lambda>order. None)"
  using insert_free_pages_65536 [of "page_allocator_buddy links bytes"]
    allocate_pages_empty [of links bytes flags]
  by (simp add: page_allocator_buddy_def)

text \<open>
  Claim C7 as stated fails: for PFN 0 and \<open>2 ^ 64 - 1\<close> pages the sum does not wrap
  around, and the assertion halts the kernel all the same.
\<close>

theorem overflow_assertion_counterexample:
  "unat (0 :: u64) + unat (18446744073709551615 :: u64) < 2 ^ 64
   \<and> insert_free_pages zero_memory_allocator 0 18446744073709551615 = Inl Assertion_failed"
  by (simp add: insert_free_pages_def overflow_check_def UNIT64_MAX_def)

text \<open>
  Claim C7, amended.  The overflow assertion of \<open>insert_free_pages\<close> passes exactly when
  \<open>pfn + page_count < 2 ^ 64 - 1\<close> as natural numbers, and the call halts on it otherwise:
  in every case where the sum would wrap around, and also when the sum is \<open>2 ^ 64 - 1\<close>.
\<close>

theorem overflow_assertion:
  "(overflow_check pfn page_count \<longleftrightarrow> unat pfn + unat page_count < 2 ^ 64 - 1)
   \<and> (\<not> overflow_check pfn page_count \<longrightarrow>
        insert_free_pages s pfn page_count = Inl Assertion_failed)"
  by (simp add: overflow_check_iff insert_free_pages_def)

theorem overflow_assertion_witness:
  "\<not> overflow_check 1 18446744073709551615
   \<and> insert_free_pages zero_memory_allocator 1 18446744073709551615 = Inl Assertion_failed"
  using overflow_assertion [of 1 18446744073709551615 zero_memory_allocator]
  by simp

section \<open>Scheduler properties\<close>

lemma select_times_add:
  "select_times (m + n) s = select_times n (select_times m s)"
  by (induction m arbitrary: s) simp_all

text \<open>
  Claim C9.  Whatever the run queue and the current-task slot hold, the \<open>to_remove\<close>
  flag of the slot is false when \<open>select_next_task\<close> has returned.
\<close>

theorem select_next_task_clears_to_remove:
  "to_remove (current_task (snd (select_next_task s cur))) = False"
  by (simp add: select_next_task_def Let_def split: list.split)

lemma rotate_CB:
  "select_next_task \<lparr>runqueue = [y], current_task = \<lparr>task = Some x, to_remove = False\<rparr>\<rparr> cur =
     (Some y, \<lparr>runqueue = [x], current_task = \<lparr>task = Some y, to_remove = False\<rparr>\<rparr>)"
  by (simp add: select_next_task_def)

lemma select_times_two:
  "select_times n \<lparr>runqueue = [y], current_task = \<lparr>task = Some x, to_remove = False\<rparr>\<rparr> =
     (if even n then \<lparr>runqueue = [y], current_task = \<lparr>task = Some x, to_remove = False\<rparr>\<rparr>
      else \<lparr>runqueue = [x], current_task = \<lparr>task = Some y, to_remove = False\<rparr>\<rparr>)"
proof (induction n arbitrary: x y)
  case 0
  then show ?case by simp
next
  case (Suc n)
  show ?case
    by (simp add: rotate_CB Suc.IH)
qed

text \<open>
  Claim C8.  With current task \<open>A\<close> and run queue \<open>[B, C]\<close>, removing \<open>A\<close> only sets
  the deferred-removal flag and leaves the queue alone; the next \<open>select_next_task\<close>
  returns \<open>B\<close> and leaves the queue \<open>[C]\<close> without re-enqueueing \<open>A\<close>; the call after
  \<open>n\<close> further scheduling points returns \<open>C\<close> for even \<open>n\<close> and \<open>B\<close> for odd \<open>n\<close>, never
  \<open>A\<close>, and \<open>A\<close> is never in the queue again.
\<close>

theorem self_removal_scenario:
  assumes "A \<noteq> B" and "A \<noteq> C"
  shows "remove_from_runqueue
           \<lparr>runqueue = [B, C], current_task = \<lparr>task = Some A, to_remove = r\<rparr>\<rparr> A =
           \<lparr>runqueue = [B, C], current_task = \<lparr>task = Some A, to_remove = True\<rparr>\<rparr>
       \<and> select_next_task
           \<lparr>runqueue = [B, C], current_task = \<lparr>task = Some A, to_remove = True\<rparr>\<rparr> (Some A) =
           (Some B, \<lparr>runqueue = [C], current_task = \<lparr>task = Some B, to_remove = False\<rparr>\<rparr>)
       \<and> fst (select_next_task
                (select_times n
                   \<lparr>runqueue = [C], current_task = \<lparr>task = Some B, to_remove = False\<rparr>\<rparr>) cur) =
           Some (if even n then C else B)
       \<and> fst (select_next_task
                (select_times n
                   \<lparr>runqueue = [C], current_task = \<lparr>task = Some B, to_remove = False\<rparr>\<rparr>) cur) \<noteq>
           Some A
       \<and> A \<notin> set (runqueue (select_times n
                   \<lparr>runqueue = [C], current_task = \<lparr>task = Some B, to_remove = False\<rparr>\<rparr>))"
  using assms
  by (simp add: remove_from_runqueue_def select_next_task_def select_times_two rotate_CB)

theorem self_removal_scenario_witness:
  "(1::nat) \<noteq> 2 \<and> (1::nat) \<noteq> 3
   \<and> select_next_task (remove_from_runqueue
           \<lparr>runqueue = [2, 3], current_task = \<lparr>task = Some 1, to_remove = False\<rparr>\<rparr> 1) (Some 1) =
           (Some 2, \<lparr>runqueue = [3], current_task = \<lparr>task = Some 2, to_remove = False\<rparr>\<rparr>)
   \<and> fst (select_next_task
                (select_times 5
                   \<lparr>runqueue = [3], current_task = \<lparr>task = Some 2, to_remove = False\<rparr>\<rparr>) None) \<noteq>
           Some 1"
  using self_removal_scenario [of 1 2 3 False 5 None]
  by simp
section \<open>Properties of the directory listing\<close>

lemma scan_buffer_filter:
  "scan_buffer buffer (directories, files) =
     (directories @ [e \<leftarrow> buffer. \<not> hidden e \<and> type e = Directory],
      files @ [e \<leftarrow> buffer. \<not> hidden e \<and> type e = File])"
proof (induction buffer arbitrary: directories files)
  case Nil
  then show ?case by simp
next
  case (Cons entry rest)
  then show ?case
    by (cases "type entry") simp_all
qed

lemma read_entries_filter:
  "read_entries dir (directories, files) =
     (directories @ [e \<leftarrow> entries_read dir. \<not> hidden e \<and> type e = Directory],
      files @ [e \<leftarrow> entries_read dir. \<not> hidden e \<and> type e = File])"
proof (induction dir arbitrary: directories files)
  case Nil
  then show ?case by simp
next
  case (Cons buffer later)
  then show ?case
    by (simp add: scan_buffer_filter Let_def)
qed

lemma hidden_iff: "hidden e \<longleftrightarrow> (\<exists>cs. name e = CHR ''.'' # cs)"
  by (simp add: hidden_def split: list.split)

text \<open>
  Claim C10.  In both output modes the listing consists of the entries read whose name
  does not begin with a dot: first those that are directories, in the order read, then
  those that are files, in the order read.  Nothing is printed for an entry whose name
  begins with a dot.
\<close>

theorem ls_hides_dot_entries_and_lists_directories_first:
  "list_directory False dir =
     map (\<lambda>e. name e @ ''\<newline>'') [e \<leftarrow> entries_read dir. \<not> hidden e \<and> type e = Directory] @
     map (\<lambda>e. name e @ ''\<newline>'') [e \<leftarrow> entries_read dir. \<not> hidden e \<and> type e = File]
   \<and> list_directory True dir =
     map (\<lambda>e. ''(D) '' @ name e @ ''\<newline>'')
         [e \<leftarrow> entries_read dir. \<not> hidden e \<and> type e = Directory] @
     concat (map (\<lambda>e. [''(F) '' @ name e @ ''  ''] @
                       replicate (longest_name [e \<leftarrow> entries_read dir. \<not> hidden e \<and> type e = File]
                                  - length (name e)) '' '' @
                       [decimal (unat (file_size e)) @ ''\<newline>''])
                 [e \<leftarrow> entries_read dir. \<not> hidden e \<and> type e = File])"
  by (simp add: list_directory_def read_entries_filter print_plain_def print_formatted_def
      Let_def)

end
